theory Spec2Isabelle
  imports Main "HOL-Library.Word"
begin

section \<open>Strings\<close>

text \<open>
  A JavaScript string is a sequence of 16-bit code units; \<open>===\<close> on two strings compares
  these sequences, and a string is falsy exactly when it is empty.
\<close>

type_synonym code_unit = "16 word"
type_synonym jsstring = "code_unit list"

text \<open>String literals of the source are ASCII; \<open>utf16\<close> writes them as code units.\<close>

definition utf16 :: "string \<Rightarrow> jsstring" where
  "utf16 s = map (\<lambda>c. of_nat (of_char c)) s"

text \<open>
  \<open>String.prototype.includes\<close> (search from position 0): the argument occurs at some
  position of the receiver. \<open>startsWith\<close> is the comparison at one position.
\<close>

fun startsWith :: "'a list \<Rightarrow> 'a list \<Rightarrow> bool" where
  "startsWith s [] = True"
| "startsWith [] (p # ps) = False"
| "startsWith (x # xs) (p # ps) = (x = p \<and> startsWith xs ps)"

fun str_includes :: "'a list \<Rightarrow> 'a list \<Rightarrow> bool" where
  "str_includes [] p = (p = [])"
| "str_includes (x # xs) p = (startsWith (x # xs) p \<or> str_includes xs p)"

text \<open>
  \<open>String.prototype.toLowerCase\<close> belongs to the JavaScript runtime (it follows the Unicode
  case tables), so the filter takes it as a parameter \<open>lower\<close>. On strings of ASCII code
  units the runtime function is \<open>toLowerCase_ascii\<close>, which the concrete examples use.
\<close>

definition toLowerCase_ascii :: "jsstring \<Rightarrow> jsstring" where
  "toLowerCase_ascii s = map (\<lambda>u. if 65 \<le> u \<and> u \<le> 90 then u + 32 else u) s"

text \<open>
  The claim's wording of a substring match, used to state the filter's specification:
  \<open>p\<close> is a substring of \<open>s\<close> when \<open>s\<close> is \<open>p\<close> with something before and after it.
\<close>

definition is_substring :: "'a list \<Rightarrow> 'a list \<Rightarrow> bool" where
  "is_substring p s = (\<exists>before after. s = before @ p @ after)"

section \<open>The company record\<close>

text \<open>
  Modelled from the spec: the declaration of \<open>Company\<close> in \<open>src/types\<close> is not among the
  sources. The spec gives a flat record of owner name, company name, city and email, all
  strings; these are also the four fields \<open>App.tsx\<close> reads. The functions below are stated
  over the record scheme, so a record with further fields is covered too.
\<close>

record Company =
  owner :: jsstring
  company :: jsstring
  city :: jsstring
  email :: jsstring

section \<open>The filter pipeline (\<open>filteredData\<close>, \<open>App.tsx\<close>)\<close>

definition matchesSearch :: "(jsstring \<Rightarrow> jsstring) \<Rightarrow> jsstring \<Rightarrow> 'a Company_scheme \<Rightarrow> bool" where
  "matchesSearch lower filterText c =
     (str_includes (lower (owner c)) filterText \<or> str_includes (lower (company c)) filterText)"

definition matchesCity :: "jsstring \<Rightarrow> 'a Company_scheme \<Rightarrow> bool" where
  "matchesCity locationFilter c = (if locationFilter \<noteq> [] then city c = locationFilter else True)"

definition matchesCompany :: "jsstring \<Rightarrow> 'a Company_scheme \<Rightarrow> bool" where
  "matchesCompany companyFilter c = (if companyFilter \<noteq> [] then company c = companyFilter else True)"

definition filteredData ::
  "(jsstring \<Rightarrow> jsstring) \<Rightarrow> 'a Company_scheme list \<Rightarrow> jsstring \<Rightarrow> jsstring \<Rightarrow> jsstring
     \<Rightarrow> 'a Company_scheme list" where
  "filteredData lower companies globalFilter locationFilter companyFilter =
     (let filterText = lower globalFilter
      in filter (\<lambda>c. matchesSearch lower filterText c
                    \<and> matchesCity locationFilter c
                    \<and> matchesCompany companyFilter c) companies)"

section \<open>The dropdown options (\<open>locations\<close>, \<open>companyNames\<close>, \<open>CustomDropdown\<close>)\<close>

text \<open>
  \<open>[...new Set(xs)]\<close>: a \<open>Set\<close> keeps its members in insertion order and ignores the
  insertion of a member it already has; spreading it lists the members in that order.
\<close>

definition set_add :: "'a list \<Rightarrow> 'a \<Rightarrow> 'a list" where
  "set_add members x = (if x \<in> set members then members else members @ [x])"

definition new_Set :: "'a list \<Rightarrow> 'a list" where
  "new_Set xs = foldl set_add [] xs"

definition locations :: "'a Company_scheme list \<Rightarrow> jsstring list" where
  "locations allCompanies = new_Set (map city allCompanies)"

definition companyNames :: "'a Company_scheme list \<Rightarrow> jsstring list" where
  "companyNames allCompanies = new_Set (map company allCompanies)"

text \<open>
  The list items of an open \<open>CustomDropdown\<close>, each by the value its click passes to
  \<open>handleSelect\<close> (and so to \<open>onChange\<close>): the placeholder item passes the empty string,
  the item of an option passes the option.
\<close>

definition dropdownItems :: "jsstring list \<Rightarrow> jsstring list" where
  "dropdownItems options = [] # options"

text \<open>
  The claim's wording of the options: the distinct values in the order of their first
  occurrence.
\<close>

fun first_occurrences :: "'a list \<Rightarrow> 'a list" where
  "first_occurrences [] = []"
| "first_occurrences (x # xs) = x # first_occurrences (filter (\<lambda>y. y \<noteq> x) xs)"

section \<open>The state of \<open>App\<close>\<close>

text \<open>
  The ten \<open>useState\<close> cells of \<open>App\<close>, followed by what the component has pending in
  the browser (the fetch and the timers it started, each timer by the time it is due, in
  milliseconds) and by two history variables that only record what has happened:
  \<open>fetches\<close> counts the calls of \<open>fetchData\<close>, \<open>endShown\<close> lists the times at which
  \<open>setShowEndMessage(true)\<close> was called.
\<close>

record app_state =
  allCompanies :: "Company list"
  companies :: "Company list"
  page :: nat
  loading :: bool
  hasMore :: bool
  error :: "jsstring option"
  globalFilter :: jsstring
  locationFilter :: jsstring
  companyFilter :: jsstring
  showEndMessage :: bool
  now :: nat
  fetchPending :: bool
  loadingTimers :: "nat list"
  endTimer :: "nat option"
  fetches :: nat
  endShown :: "nat list"

definition initial :: app_state where
  "initial = \<lparr> allCompanies = [], companies = [], page = 1, loading = False, hasMore = True,
     error = None, globalFilter = [], locationFilter = [], companyFilter = [],
     showEndMessage = False, now = 0, fetchPending = False, loadingTimers = [],
     endTimer = None, fetches = 0, endShown = [] \<rparr>"

section \<open>Loading the dataset (\<open>fetchData\<close>)\<close>

text \<open>
  What the browser hands to \<open>fetchData\<close>: \<open>fetch\<close> rejects (a network error, with the
  error's message), or resolves to a response with its \<open>ok\<close> flag, its \<open>content-type\<close>
  header (\<open>null\<close> when absent) and what \<open>res.json()\<close> does: it rejects with an error
  (the body is not JSON), or resolves to the parsed array.
\<close>

datatype json_body = JsonThrows jsstring | JsonArray "Company list"

record response =
  ok :: bool
  contentType :: "jsstring option"
  json :: json_body

datatype fetch_outcome = FetchRejects jsstring | FetchResolves response

text \<open>\<open>contentType?.includes("application/json")\<close>, undefined (falsy) on \<open>null\<close>.\<close>

definition contentTypeIsJson :: "jsstring option \<Rightarrow> bool" where
  "contentTypeIsJson ct =
     (case ct of None \<Rightarrow> False | Some t \<Rightarrow> str_includes t (utf16 ''application/json''))"

text \<open>The function up to its first \<open>await\<close>.\<close>

definition fetchData_begin :: "app_state \<Rightarrow> app_state" where
  "fetchData_begin s =
     s\<lparr> loading := True, error := None, fetchPending := True, fetches := fetches s + 1 \<rparr>"

text \<open>The \<open>catch\<close> block with the caught error's message, and the \<open>finally\<close> block.\<close>

definition fetchData_finally :: "app_state \<Rightarrow> app_state" where
  "fetchData_finally s = s\<lparr> loading := False, fetchPending := False \<rparr>"

definition fetchData_catch :: "jsstring \<Rightarrow> app_state \<Rightarrow> app_state" where
  "fetchData_catch message s =
     fetchData_finally
       (s\<lparr> error := Some (if message \<noteq> [] then message else utf16 ''Something went wrong'') \<rparr>)"

text \<open>The rest of the function, once the browser has delivered the outcome.\<close>

definition fetchData_settle :: "fetch_outcome \<Rightarrow> app_state \<Rightarrow> app_state" where
  "fetchData_settle outcome s =
     (case outcome of
        FetchRejects message \<Rightarrow> fetchData_catch message s
      | FetchResolves res \<Rightarrow>
          if \<not> ok res \<or> \<not> contentTypeIsJson (contentType res)
          then fetchData_catch (utf16 ''Failed to fetch company data'') s
          else (case json res of
                  JsonThrows message \<Rightarrow> fetchData_catch message s
                | JsonArray data \<Rightarrow> fetchData_finally (s\<lparr> allCompanies := data \<rparr>)))"

text \<open>
  The claim's fetch failures: a non-success status, a content type that does not include
  \<open>application/json\<close>, or a network error.
\<close>

definition claimed_fetch_failure :: "fetch_outcome \<Rightarrow> bool" where
  "claimed_fetch_failure outcome =
     (case outcome of
        FetchRejects message \<Rightarrow> True
      | FetchResolves res \<Rightarrow> \<not> ok res \<or> \<not> contentTypeIsJson (contentType res))"

text \<open>The outcomes on which \<open>res.json()\<close> is reached and throws.\<close>

definition json_throws :: "fetch_outcome \<Rightarrow> bool" where
  "json_throws outcome =
     (case outcome of
        FetchRejects message \<Rightarrow> False
      | FetchResolves res \<Rightarrow>
          (case json res of JsonThrows message \<Rightarrow> True | JsonArray data \<Rightarrow> False))"

section \<open>Pagination (\<open>loadPage\<close>, the observer of \<open>lastRowRef\<close>)\<close>

definition pageSize :: nat where
  "pageSize = 10"

definition loadPage :: "app_state \<Rightarrow> app_state" where
  "loadPage s =
     (if allCompanies s = [] \<or> \<not> hasMore s then s
      else let end_index = min (page s * pageSize) (length (allCompanies s))
           in s\<lparr> companies := take end_index (allCompanies s),
                hasMore := end_index < length (allCompanies s),
                loading := True,
                loadingTimers := loadingTimers s @ [now s + 1000] \<rparr>)"

text \<open>The effect with dependencies \<open>[page, loadPage, allCompanies]\<close>.\<close>

definition pageEffect :: "app_state \<Rightarrow> app_state" where
  "pageEffect s = (if allCompanies s \<noteq> [] then loadPage s else s)"

text \<open>
  The callback of the \<open>IntersectionObserver\<close>, on an intersecting entry. It tests the
  \<open>hasMore\<close> of the render in which \<open>lastRowRef\<close> created the observer (\<open>seen\<close>), and
  increments the page counter of the current state.
\<close>

definition observerCallback :: "bool \<Rightarrow> app_state \<Rightarrow> app_state" where
  "observerCallback seen s = (if seen then s\<lparr> page := page s + 1 \<rparr> else s)"

section \<open>The end-of-list message\<close>

text \<open>
  The effect with dependencies \<open>[loading, hasMore]\<close>: the cleanup of its previous run
  clears that run's timer, then the body runs with the values \<open>seen\<close> of the render it
  belongs to.
\<close>

definition endMessageEffect :: "app_state \<Rightarrow> app_state \<Rightarrow> app_state" where
  "endMessageEffect seen s =
     (if \<not> loading seen \<and> \<not> hasMore seen
      then s\<lparr> showEndMessage := True, endTimer := Some (now s + 3000),
              endShown := endShown s @ [now s] \<rparr>
      else s\<lparr> endTimer := None \<rparr>)"

section \<open>What is rendered\<close>

text \<open>\<open>{error && <div>{error}</div>}\<close>: the banner's text, when there is a banner.\<close>

definition errorBanner :: "app_state \<Rightarrow> jsstring option" where
  "errorBanner s = (case error s of None \<Rightarrow> None | Some m \<Rightarrow> if m = [] then None else Some m)"

text \<open>\<open>{!loading && showEndMessage && !error && <p>No more companies to load.</p>}\<close>\<close>

definition endMessageVisible :: "app_state \<Rightarrow> bool" where
  "endMessageVisible s = (\<not> loading s \<and> showEndMessage s \<and> errorBanner s = None)"

section \<open>Renders, effects and events\<close>

text \<open>
  After a render React runs the effects whose dependencies differ from the previous
  render's, in the order of their declaration, each with the values of this render; the
  state updates they make are applied together and give the next render, as are the
  updates made in one callback (React 18 batches them).
  \<open>loadPage\<close> is a \<open>useCallback\<close> over \<open>[page, allCompanies, hasMore]\<close>, so it changes
  when one of these does.
  Dependencies are compared here by value. React compares arrays by reference, which
  differs only when the fetched array is empty; the page effect that React then runs
  finds \<open>allCompanies.length\<close> zero and does nothing.
\<close>

definition pageDeps :: "app_state \<Rightarrow> nat \<times> Company list \<times> bool" where
  "pageDeps s = (page s, allCompanies s, hasMore s)"

definition endDeps :: "app_state \<Rightarrow> bool \<times> bool" where
  "endDeps s = (loading s, hasMore s)"

definition runEffects :: "app_state \<Rightarrow> app_state \<Rightarrow> app_state" where
  "runEffects prev cur =
     (let s1 = (if pageDeps prev \<noteq> pageDeps cur then pageEffect cur else cur)
      in if endDeps prev \<noteq> endDeps cur then endMessageEffect cur s1 else s1)"

text \<open>
  Two rounds of effects after an update; lemma \<open>settle_stable\<close> shows that a third round
  has no effect left to run.
\<close>

definition settle :: "app_state \<Rightarrow> app_state \<Rightarrow> app_state" where
  "settle prev cur = runEffects cur (runEffects prev cur)"

text \<open>
  Mounting: the first render shows \<open>initial\<close>, then all three effects run (the fetch
  effect, with dependencies \<open>[]\<close>, only here).
\<close>

definition mounted :: app_state where
  "mounted =
     (let first = endMessageEffect initial (pageEffect (fetchData_begin initial))
      in settle initial first)"

text \<open>
  The events of a session, each at a time \<open>t\<close> in milliseconds: the fetch settles; the
  observer reports the last row intersecting; the search box changes (its clear button
  gives the empty string); an item of one of the two dropdowns is clicked; a column header
  is clicked, which changes the sorting kept by the table library and no state of
  \<open>App\<close>; a loading timer or the end-message timer fires.
  A timer fires no earlier than it is due, and the loading timers fire in the order they
  were started. The 1000 ms that \<open>fetchData\<close> waits before it stores the data are part
  of the time at which the fetch settles.
  The observer's event carries the \<open>hasMore\<close> that its callback captured, and it is
  allowed with either value in every state: the model does not track which row the
  observer is attached to nor in which render it was created, so the reachable states
  include all those the browser can reach.
  \<open>step\<close> is \<open>None\<close> when the event cannot happen in the state.
\<close>

datatype event =
    FetchSettled fetch_outcome
  | Intersect bool
  | SearchInput jsstring
  | SelectLocation nat
  | SelectCompany nat
  | ToggleSort nat
  | LoadingTimeout
  | EndMessageTimeout

definition handle_event :: "event \<Rightarrow> app_state \<Rightarrow> app_state option" where
  "handle_event e s =
     (case e of
        FetchSettled outcome \<Rightarrow>
          if fetchPending s then Some (fetchData_settle outcome s) else None
      | Intersect seen \<Rightarrow> Some (observerCallback seen s)
      | SearchInput v \<Rightarrow> Some (s\<lparr> globalFilter := v \<rparr>)
      | SelectLocation i \<Rightarrow>
          (let items = dropdownItems (locations (allCompanies s))
           in if i < length items then Some (s\<lparr> locationFilter := items ! i \<rparr>) else None)
      | SelectCompany i \<Rightarrow>
          (let items = dropdownItems (companyNames (allCompanies s))
           in if i < length items then Some (s\<lparr> companyFilter := items ! i \<rparr>) else None)
      | ToggleSort column \<Rightarrow> Some s
      | LoadingTimeout \<Rightarrow>
          (case loadingTimers s of
             [] \<Rightarrow> None
           | due # rest \<Rightarrow>
               if due \<le> now s then Some (s\<lparr> loading := False, loadingTimers := rest \<rparr>)
               else None)
      | EndMessageTimeout \<Rightarrow>
          (case endTimer s of
             None \<Rightarrow> None
           | Some due \<Rightarrow>
               if due \<le> now s then Some (s\<lparr> showEndMessage := False, endTimer := None \<rparr>)
               else None))"

definition step :: "nat \<Rightarrow> event \<Rightarrow> app_state \<Rightarrow> app_state option" where
  "step t e s =
     (if t < now s then None
      else let s0 = s\<lparr> now := t \<rparr>
           in (case handle_event e s0 of None \<Rightarrow> None | Some s1 \<Rightarrow> Some (settle s0 s1)))"

fun run :: "(nat \<times> event) list \<Rightarrow> app_state \<Rightarrow> app_state option" where
  "run [] s = Some s"
| "run ((t, e) # rest) s = (case step t e s of None \<Rightarrow> None | Some s' \<Rightarrow> run rest s')"

inductive reachable :: "app_state \<Rightarrow> bool" where
  reachable_mounted: "reachable mounted"
| reachable_step: "reachable s \<Longrightarrow> step t e s = Some s' \<Longrightarrow> reachable s'"

section \<open>Auxiliary definitions for the proofs\<close>

text \<open>
  The message of the error that \<open>fetchData\<close> catches, when it catches one: the rejection
  of \<open>fetch\<close>, the error thrown on a bad status or content type, or the rejection of
  \<open>res.json()\<close>.
\<close>

definition failure_message :: "fetch_outcome \<Rightarrow> jsstring option" where
  "failure_message outcome =
     (case outcome of
        FetchRejects message \<Rightarrow> Some message
      | FetchResolves res \<Rightarrow>
          if \<not> ok res \<or> \<not> contentTypeIsJson (contentType res)
          then Some (utf16 ''Failed to fetch company data'')
          else (case json res of JsonThrows message \<Rightarrow> Some message | JsonArray data \<Rightarrow> None))"

text \<open>\<open>loads s\<close>: a call of \<open>loadPage\<close> in \<open>s\<close> passes its guard.\<close>

definition loads :: "app_state \<Rightarrow> bool" where
  "loads s = (allCompanies s \<noteq> [] \<and> hasMore s)"

text \<open>The state after the page effect of a round, which runs when its dependencies changed.\<close>

definition afterPage :: "app_state \<Rightarrow> app_state \<Rightarrow> app_state" where
  "afterPage prev cur = (if pageDeps prev \<noteq> pageDeps cur then pageEffect cur else cur)"

text \<open>
  The invariants of the reachable states. \<open>page_inv\<close>: the displayed list is the prefix
  that the page counter gives, and \<open>hasMore\<close> says whether records remain.
  \<open>fetch_inv\<close>: \<open>fetchData\<close> was called once; while the fetch is pending there is no
  dataset and no error; an error means there is no dataset.
  \<open>end_inv\<close>: \<open>setShowEndMessage(true)\<close> was called once when loading has ended with no
  more records, and never otherwise; the message is on exactly while its timer is pending.
  \<open>loading_inv\<close>: while \<open>loading\<close> is set, the fetch or a loading timer is pending.
  \<open>filter_inv\<close>: each categorical filter holds a value that its dropdown offers.
\<close>

definition page_inv :: "app_state \<Rightarrow> bool" where
  "page_inv s =
     (companies s = take (min (page s * pageSize) (length (allCompanies s))) (allCompanies s)
      \<and> hasMore s = (allCompanies s = [] \<or> page s * pageSize < length (allCompanies s)))"

definition fetch_inv :: "app_state \<Rightarrow> bool" where
  "fetch_inv s =
     (fetches s = 1
      \<and> (fetchPending s \<longrightarrow> allCompanies s = [] \<and> error s = None)
      \<and> (error s \<noteq> None \<longrightarrow> allCompanies s = [] \<and> error s \<noteq> Some [] \<and> \<not> fetchPending s))"

definition end_inv :: "app_state \<Rightarrow> bool" where
  "end_inv s =
     (if \<not> loading s \<and> \<not> hasMore s
      then length (endShown s) = 1 \<and> hd (endShown s) \<le> now s
           \<and> endTimer s = (if showEndMessage s then Some (hd (endShown s) + 3000) else None)
      else endShown s = [] \<and> endTimer s = None \<and> \<not> showEndMessage s)"

definition loading_inv :: "app_state \<Rightarrow> bool" where
  "loading_inv s = (loading s \<longrightarrow> fetchPending s \<or> loadingTimers s \<noteq> [])"

definition filter_inv :: "app_state \<Rightarrow> bool" where
  "filter_inv s =
     (locationFilter s \<in> set (dropdownItems (locations (allCompanies s)))
      \<and> companyFilter s \<in> set (dropdownItems (companyNames (allCompanies s))))"

text \<open>What the claim says of the state after \<open>loadPage\<close>.\<close>

definition loadPage_post :: "app_state \<Rightarrow> bool" where
  "loadPage_post s =
     (companies s = take (length (companies s)) (allCompanies s)
      \<and> hasMore s = (length (companies s) < length (allCompanies s)))"

section \<open>Example data\<close>

definition example_row :: "string \<Rightarrow> string \<Rightarrow> string \<Rightarrow> Company" where
  "example_row a b c = \<lparr> owner = utf16 a, company = utf16 b, city = utf16 c, email = utf16 ''rome@acme.io'' \<rparr>"

definition example_rows :: "Company list" where
  "example_rows = [example_row ''Ann'' ''Acme'' ''Rome'', example_row ''Bob'' ''Bolt'' ''Oslo'',
     example_row ''Cy'' ''ACME Labs'' ''Rome'']"

definition example_company :: "nat \<Rightarrow> Company" where
  "example_company i =
     \<lparr> owner = utf16 ''Ann'' @ [of_nat (48 + i)],
       company = (if even i then utf16 ''Acme'' else utf16 ''Bolt''),
       city = (if i < 2 then utf16 ''Rome'' else utf16 ''Oslo''),
       email = utf16 ''a@b.c'' \<rparr>"

definition example_dataset :: "Company list" where
  "example_dataset = map example_company [0, 1, 2, 3, 4, 5, 6, 7, 8, 9, 10, 11]"

definition example_response :: fetch_outcome where
  "example_response =
     FetchResolves \<lparr> ok = True, contentType = Some (utf16 ''application/json; charset=utf-8''),
                     json = JsonArray example_dataset \<rparr>"

definition malformed_response :: fetch_outcome where
  "malformed_response =
     FetchResolves \<lparr> ok = True, contentType = Some (utf16 ''application/json''),
                     json = JsonThrows (utf16 ''Unexpected end of JSON input'') \<rparr>"

definition not_found_response :: fetch_outcome where
  "not_found_response =
     FetchResolves \<lparr> ok = False, contentType = Some (utf16 ''text/html''),
                     json = JsonThrows (utf16 ''Unexpected token'') \<rparr>"

text \<open>
  States of a session on \<open>example_dataset\<close> (12 records): the first page is shown; the
  observer has fired and the second page is loading; its loading timer has fired and the
  end message is on; the end-message timer has fired. \<open>fetch_failed\<close> is the state after
  a 404 response.
\<close>

definition first_page :: app_state where
  "first_page = mounted\<lparr> allCompanies := example_dataset, companies := take 10 example_dataset,
     loading := False, fetchPending := False, now := 1500 \<rparr>"

definition second_page :: app_state where
  "second_page = first_page\<lparr> companies := example_dataset, page := 2, hasMore := False,
     loading := True, loadingTimers := [3000], now := 2000 \<rparr>"

definition end_reached :: app_state where
  "end_reached = second_page\<lparr> loading := False, loadingTimers := [], showEndMessage := True,
     endTimer := Some 6000, endShown := [3000], now := 3000 \<rparr>"

definition end_hidden :: app_state where
  "end_hidden = end_reached\<lparr> showEndMessage := False, endTimer := None, now := 6200 \<rparr>"

definition fetch_failed :: app_state where
  "fetch_failed = mounted\<lparr> error := Some (utf16 ''Failed to fetch company data''), loading := False,
     fetchPending := False, now := 400 \<rparr>"

section \<open>Strings and sets\<close>

lemma startsWith_iff: "startsWith s p \<longleftrightarrow> (\<exists>r. s = p @ r)"
  by (induction s p rule: startsWith.induct) auto

lemma str_includes_iff: "str_includes s p \<longleftrightarrow> is_substring p s"
proof (induction s)
  case Nil
  then show ?case by (auto simp: is_substring_def)
next
  case (Cons x xs)
  have "is_substring p (x # xs) \<longleftrightarrow> (\<exists>r. x # xs = p @ r) \<or> is_substring p xs"
  proof
    assume "is_substring p (x # xs)"
    then obtain b a where eq: "x # xs = b @ p @ a" by (auto simp: is_substring_def)
    show "(\<exists>r. x # xs = p @ r) \<or> is_substring p xs"
    proof (cases b)
      case Nil
      with eq show ?thesis by auto
    next
      case (Cons y ys)
      with eq have "xs = ys @ p @ a" by simp
      then show ?thesis by (auto simp: is_substring_def)
    qed
  next
    assume "(\<exists>r. x # xs = p @ r) \<or> is_substring p xs"
    then show "is_substring p (x # xs)"
    proof
      assume "\<exists>r. x # xs = p @ r"
      then obtain r where "x # xs = [] @ p @ r" by auto
      then show ?thesis unfolding is_substring_def by blast
    next
      assume "is_substring p xs"
      then obtain b a where "xs = b @ p @ a" by (auto simp: is_substring_def)
      then have "x # xs = (x # b) @ p @ a" by simp
      then show ?thesis unfolding is_substring_def by blast
    qed
  qed
  with Cons show ?case by (simp add: startsWith_iff del: startsWith.simps)
qed

lemma foldl_set_add:
  "foldl set_add members xs = members @ first_occurrences (filter (\<lambda>x. x \<notin> set members) xs)"
proof (induction xs arbitrary: members)
  case Nil
  then show ?case by simp
next
  case (Cons x xs)
  show ?case
  proof (cases "x \<in> set members")
    case True
    then show ?thesis using Cons [of members] by (simp add: set_add_def)
  next
    case False
    have "filter (\<lambda>y. y \<notin> set (members @ [x])) xs
        = filter (\<lambda>y. y \<noteq> x) (filter (\<lambda>y. y \<notin> set members) xs)"
      by (induction xs) auto
    then show ?thesis using False Cons [of "members @ [x]"] by (simp add: set_add_def)
  qed
qed

lemma new_Set_first_occurrences: "new_Set xs = first_occurrences xs"
  by (simp add: new_Set_def foldl_set_add)

lemma set_first_occurrences: "set (first_occurrences xs) = set xs"
  by (induction xs rule: first_occurrences.induct) auto

lemma distinct_first_occurrences: "distinct (first_occurrences xs)"
  by (induction xs rule: first_occurrences.induct) (auto simp: set_first_occurrences)

lemma locations_first_occurrences:
  "locations all = first_occurrences (map city all)"
  "companyNames all = first_occurrences (map company all)"
  by (simp_all add: locations_def companyNames_def new_Set_first_occurrences)

lemma set_locations:
  "set (locations all) = city ` set all"
  "set (companyNames all) = company ` set all"
  by (simp_all add: locations_first_occurrences set_first_occurrences)

lemma take_min_length: "take (min n (length xs)) xs = take n xs"
  by (cases "n \<le> length xs") (simp_all add: min_def)

lemma take_next_page:
  "take (min (n + k) (length xs)) xs = take (min n (length xs)) xs @ take k (drop (min n (length xs)) xs)"
proof -
  have "drop (min n (length xs)) xs = drop n xs"
    by (cases "n \<le> length xs") (simp_all add: min_def)
  then show ?thesis by (simp only: take_min_length take_add)
qed

section \<open>The effects, field by field\<close>

lemma pageEffect_keeps [simp]:
  "allCompanies (pageEffect s) = allCompanies s"
  "page (pageEffect s) = page s"
  "error (pageEffect s) = error s"
  "globalFilter (pageEffect s) = globalFilter s"
  "locationFilter (pageEffect s) = locationFilter s"
  "companyFilter (pageEffect s) = companyFilter s"
  "showEndMessage (pageEffect s) = showEndMessage s"
  "now (pageEffect s) = now s"
  "fetchPending (pageEffect s) = fetchPending s"
  "endTimer (pageEffect s) = endTimer s"
  "fetches (pageEffect s) = fetches s"
  "endShown (pageEffect s) = endShown s"
  by (simp_all add: pageEffect_def loadPage_def Let_def)

lemma pageEffect_changes:
  "companies (pageEffect s) =
     (if loads s then take (min (page s * pageSize) (length (allCompanies s))) (allCompanies s)
      else companies s)"
  "hasMore (pageEffect s) = (if loads s then page s * pageSize < length (allCompanies s) else hasMore s)"
  "loading (pageEffect s) = (if loads s then True else loading s)"
  "loadingTimers (pageEffect s) = (if loads s then loadingTimers s @ [now s + 1000] else loadingTimers s)"
  by (auto simp: pageEffect_def loadPage_def Let_def loads_def)

lemma pageEffect_not_loads: "\<not> loads s \<Longrightarrow> pageEffect s = s"
  by (auto simp: pageEffect_def loadPage_def loads_def)

lemma endMessageEffect_keeps [simp]:
  "allCompanies (endMessageEffect seen s) = allCompanies s"
  "companies (endMessageEffect seen s) = companies s"
  "page (endMessageEffect seen s) = page s"
  "loading (endMessageEffect seen s) = loading s"
  "hasMore (endMessageEffect seen s) = hasMore s"
  "error (endMessageEffect seen s) = error s"
  "globalFilter (endMessageEffect seen s) = globalFilter s"
  "locationFilter (endMessageEffect seen s) = locationFilter s"
  "companyFilter (endMessageEffect seen s) = companyFilter s"
  "now (endMessageEffect seen s) = now s"
  "fetchPending (endMessageEffect seen s) = fetchPending s"
  "loadingTimers (endMessageEffect seen s) = loadingTimers s"
  "fetches (endMessageEffect seen s) = fetches s"
  by (simp_all add: endMessageEffect_def)

lemma endMessageEffect_changes:
  "showEndMessage (endMessageEffect seen s) = (if \<not> loading seen \<and> \<not> hasMore seen then True else showEndMessage s)"
  "endTimer (endMessageEffect seen s) = (if \<not> loading seen \<and> \<not> hasMore seen then Some (now s + 3000) else None)"
  "endShown (endMessageEffect seen s) = (if \<not> loading seen \<and> \<not> hasMore seen then endShown s @ [now s] else endShown s)"
  by (simp_all add: endMessageEffect_def)

lemma endMessageEffect_loading: "loading seen \<Longrightarrow> endMessageEffect seen s = s\<lparr> endTimer := None \<rparr>"
  by (simp add: endMessageEffect_def)

lemma pageDeps_endMessageEffect [simp]: "pageDeps (endMessageEffect seen s) = pageDeps s"
  by (simp add: pageDeps_def)

lemma endDeps_endMessageEffect [simp]: "endDeps (endMessageEffect seen s) = endDeps s"
  by (simp add: endDeps_def)

lemma loads_endMessageEffect [simp]: "loads (endMessageEffect seen s) = loads s"
  by (simp add: loads_def)

lemma pageDeps_pageEffect: "pageDeps (pageEffect s) \<noteq> pageDeps s \<Longrightarrow> \<not> loads (pageEffect s)"
  by (simp add: pageDeps_def loads_def pageEffect_changes split: if_splits)

lemma endDeps_pageEffect: "endDeps (pageEffect s) \<noteq> endDeps s \<Longrightarrow> loading (pageEffect s)"
  by (simp add: endDeps_def pageEffect_changes split: if_splits)

lemma pageDeps_endDeps_pageEffect:
  "pageDeps (pageEffect s) \<noteq> pageDeps s \<Longrightarrow> endDeps (pageEffect s) \<noteq> endDeps s"
  by (simp add: endDeps_def pageDeps_def)

lemma runEffects_afterPage:
  "runEffects prev cur =
     (if endDeps prev \<noteq> endDeps cur then endMessageEffect cur (afterPage prev cur)
      else afterPage prev cur)"
  by (simp add: runEffects_def afterPage_def)

text \<open>
  The second round of effects: the page effect, if it runs again, finds \<open>hasMore\<close> false
  and returns; the end effect, if it runs again, finds \<open>loading\<close> set and only clears its
  timer. So two rounds settle the state.
\<close>

lemma second_round:
  assumes "s1 = pageEffect cur \<or> s1 = cur" and "s2 = endMessageEffect seen s1 \<or> s2 = s1"
  shows "runEffects cur s2 = (if endDeps s1 \<noteq> endDeps cur then s2\<lparr> endTimer := None \<rparr> else s2)"
proof -
  have deps: "pageDeps s2 = pageDeps s1" "endDeps s2 = endDeps s1" "loads s2 = loads s1"
    "loading s2 = loading s1"
    using assms(2) by auto
  have page_idle: "pageDeps cur \<noteq> pageDeps s2 \<Longrightarrow> pageEffect s2 = s2"
    using assms(1) deps pageDeps_pageEffect [of cur] pageEffect_not_loads [of s2] by metis
  have same: "endDeps s1 = endDeps cur \<Longrightarrow> pageDeps cur = pageDeps s2"
    using assms(1) deps pageDeps_endDeps_pageEffect [of cur] by metis
  show ?thesis
  proof (cases "endDeps s1 = endDeps cur")
    case True
    then show ?thesis using same deps by (simp add: runEffects_def)
  next
    case False
    then have "loading s2" using assms(1) deps endDeps_pageEffect [of cur] by auto
    then have "endMessageEffect s2 s2 = s2\<lparr> endTimer := None \<rparr>"
      by (rule endMessageEffect_loading)
    then show ?thesis using False deps page_idle by (auto simp: runEffects_def Let_def)
  qed
qed

lemma settle_eq:
  "settle prev cur =
     (let s1 = afterPage prev cur;
          s2 = (if endDeps prev \<noteq> endDeps cur then endMessageEffect cur s1 else s1)
      in if endDeps s1 \<noteq> endDeps cur then s2\<lparr> endTimer := None \<rparr> else s2)"
proof -
  let ?s1 = "afterPage prev cur"
  let ?s2 = "runEffects prev cur"
  have "?s1 = pageEffect cur \<or> ?s1 = cur" by (simp add: afterPage_def)
  moreover have "?s2 = endMessageEffect cur ?s1 \<or> ?s2 = ?s1" by (simp add: runEffects_afterPage)
  ultimately have "runEffects cur ?s2 = (if endDeps ?s1 \<noteq> endDeps cur then ?s2\<lparr> endTimer := None \<rparr> else ?s2)"
    by (rule second_round)
  then show ?thesis by (simp add: settle_def Let_def runEffects_afterPage)
qed

lemma settle_stable: "runEffects (runEffects prev cur) (settle prev cur) = settle prev cur"
proof -
  let ?s1 = "afterPage prev cur"
  let ?s2 = "runEffects prev cur"
  have a: "?s1 = pageEffect cur \<or> ?s1 = cur" by (simp add: afterPage_def)
  have b: "?s2 = endMessageEffect cur ?s1 \<or> ?s2 = ?s1" by (simp add: runEffects_afterPage)
  have "settle prev cur = (if endDeps ?s1 \<noteq> endDeps cur then ?s2\<lparr> endTimer := None \<rparr> else ?s2)"
    unfolding settle_def using a b by (rule second_round)
  then have "pageDeps (settle prev cur) = pageDeps ?s2" "endDeps (settle prev cur) = endDeps ?s2"
    by (simp_all add: pageDeps_def endDeps_def)
  then show ?thesis by (simp add: runEffects_def)
qed

lemma settle_keeps [simp]:
  "allCompanies (settle prev cur) = allCompanies cur"
  "page (settle prev cur) = page cur"
  "error (settle prev cur) = error cur"
  "globalFilter (settle prev cur) = globalFilter cur"
  "locationFilter (settle prev cur) = locationFilter cur"
  "companyFilter (settle prev cur) = companyFilter cur"
  "now (settle prev cur) = now cur"
  "fetchPending (settle prev cur) = fetchPending cur"
  "fetches (settle prev cur) = fetches cur"
  by (simp_all add: settle_eq afterPage_def Let_def)

lemma settle_page_fields:
  "companies (settle prev cur) = companies (afterPage prev cur)"
  "hasMore (settle prev cur) = hasMore (afterPage prev cur)"
  "loading (settle prev cur) = loading (afterPage prev cur)"
  "loadingTimers (settle prev cur) = loadingTimers (afterPage prev cur)"
  by (simp_all add: settle_eq Let_def)

lemma afterPage_keeps [simp]:
  "allCompanies (afterPage prev cur) = allCompanies cur"
  "page (afterPage prev cur) = page cur"
  "now (afterPage prev cur) = now cur"
  by (simp_all add: afterPage_def)

lemma settle_end_fields:
  "showEndMessage (settle prev cur) =
     (if endDeps prev \<noteq> endDeps cur \<and> \<not> loading cur \<and> \<not> hasMore cur then True else showEndMessage cur)"
  "endShown (settle prev cur) =
     (if endDeps prev \<noteq> endDeps cur \<and> \<not> loading cur \<and> \<not> hasMore cur then endShown cur @ [now cur]
      else endShown cur)"
  "endTimer (settle prev cur) =
     (if endDeps (afterPage prev cur) \<noteq> endDeps cur then None
      else if endDeps prev \<noteq> endDeps cur
           then (if \<not> loading cur \<and> \<not> hasMore cur then Some (now cur + 3000) else None)
           else endTimer cur)"
  by (simp_all add: settle_eq Let_def afterPage_def endMessageEffect_changes)

lemmas settle_simps = settle_end_fields settle_page_fields afterPage_def pageDeps_def endDeps_def
  pageEffect_changes loads_def

section \<open>The events, case by case\<close>

lemma fetchData_settle_cases:
  obtains (failed) message where "failure_message outcome = Some message"
      "fetchData_settle outcome s =
         s\<lparr> error := Some (if message \<noteq> [] then message else utf16 ''Something went wrong''),
            loading := False, fetchPending := False \<rparr>"
  | (loaded) res data where "failure_message outcome = None" "outcome = FetchResolves res" "json res = JsonArray data"
      "fetchData_settle outcome s = s\<lparr> allCompanies := data, loading := False, fetchPending := False \<rparr>"
proof (cases outcome)
  case (FetchRejects message)
  then show ?thesis
    by (intro failed [of message]) (simp_all add: failure_message_def fetchData_settle_def fetchData_catch_def fetchData_finally_def)
next
  case (FetchResolves res)
  show ?thesis
  proof (cases "\<not> ok res \<or> \<not> contentTypeIsJson (contentType res)")
    case True
    with FetchResolves show ?thesis
      by (intro failed [of "utf16 ''Failed to fetch company data''"])
        (simp_all add: failure_message_def fetchData_settle_def fetchData_catch_def fetchData_finally_def)
  next
    case False
    show ?thesis
    proof (cases "json res")
      case (JsonThrows message)
      with False FetchResolves show ?thesis
        by (intro failed [of message])
          (simp_all add: failure_message_def fetchData_settle_def fetchData_catch_def fetchData_finally_def)
    next
      case (JsonArray data)
      with False FetchResolves show ?thesis
        by (intro loaded [of res data])
          (simp_all add: failure_message_def fetchData_settle_def fetchData_finally_def)
    qed
  qed
qed

lemma something_nonempty: "(if message \<noteq> [] then message else utf16 ''Something went wrong'') \<noteq> []"
  by (simp add: utf16_def)

lemma handle_event_cases [consumes 1, case_names failed loaded more nomore search location company sort loading_timeout end_timeout]:
  assumes "handle_event e s = Some s1"
  obtains
    (failed) outcome message where "e = FetchSettled outcome" "fetchPending s" "message \<noteq> []"
      "s1 = s\<lparr> error := Some message, loading := False, fetchPending := False \<rparr>"
  | (loaded) outcome data where "e = FetchSettled outcome" "fetchPending s"
      "s1 = s\<lparr> allCompanies := data, loading := False, fetchPending := False \<rparr>"
  | (more) "e = Intersect True" "s1 = s\<lparr> page := page s + 1 \<rparr>"
  | (nomore) "e = Intersect False" "s1 = s"
  | (search) v where "e = SearchInput v" "s1 = s\<lparr> globalFilter := v \<rparr>"
  | (location) v where "e \<in> range SelectLocation"
      "v \<in> set (dropdownItems (locations (allCompanies s)))" "s1 = s\<lparr> locationFilter := v \<rparr>"
  | (company) v where "e \<in> range SelectCompany"
      "v \<in> set (dropdownItems (companyNames (allCompanies s)))" "s1 = s\<lparr> companyFilter := v \<rparr>"
  | (sort) "e \<in> range ToggleSort" "s1 = s"
  | (loading_timeout) due rest where "e = LoadingTimeout" "loadingTimers s = due # rest" "due \<le> now s"
      "s1 = s\<lparr> loading := False, loadingTimers := rest \<rparr>"
  | (end_timeout) due where "e = EndMessageTimeout" "endTimer s = Some due" "due \<le> now s"
      "s1 = s\<lparr> showEndMessage := False, endTimer := None \<rparr>"
proof (cases e)
  case (FetchSettled outcome)
  with assms have p: "fetchPending s" and s1: "s1 = fetchData_settle outcome s"
    by (simp_all add: handle_event_def split: if_splits)
  show ?thesis
  proof (cases outcome s rule: fetchData_settle_cases)
    case (failed message)
    show ?thesis
      by (rule that(1) [OF FetchSettled p something_nonempty [of message]]) (simp add: s1 failed(2))
  next
    case (loaded res data)
    show ?thesis
      by (rule that(2) [OF FetchSettled p]) (simp add: s1 loaded(4))
  qed
next
  case (Intersect seen)
  with assms have s1: "s1 = observerCallback seen s" by (simp add: handle_event_def)
  show ?thesis
  proof (cases seen)
    case True
    show ?thesis by (rule that(3)) (simp_all add: Intersect s1 observerCallback_def True)
  next
    case False
    show ?thesis by (rule that(4)) (simp_all add: Intersect s1 observerCallback_def False)
  qed
next
  case (SearchInput v)
  with assms have s1: "s1 = s\<lparr> globalFilter := v \<rparr>" by (simp add: handle_event_def)
  show ?thesis by (rule that(5) [OF SearchInput s1])
next
  case (SelectLocation i)
  with assms have i: "i < length (dropdownItems (locations (allCompanies s)))"
    and s1: "s1 = s\<lparr> locationFilter := dropdownItems (locations (allCompanies s)) ! i \<rparr>"
    by (simp_all add: handle_event_def Let_def split: if_splits)
  have "e \<in> range SelectLocation" using SelectLocation by simp
  then show ?thesis using nth_mem [OF i] s1 by (rule that(6))
next
  case (SelectCompany i)
  with assms have i: "i < length (dropdownItems (companyNames (allCompanies s)))"
    and s1: "s1 = s\<lparr> companyFilter := dropdownItems (companyNames (allCompanies s)) ! i \<rparr>"
    by (simp_all add: handle_event_def Let_def split: if_splits)
  have "e \<in> range SelectCompany" using SelectCompany by simp
  then show ?thesis using nth_mem [OF i] s1 by (rule that(7))
next
  case (ToggleSort c)
  with assms have s1: "s1 = s" by (simp add: handle_event_def)
  have "e \<in> range ToggleSort" using ToggleSort by simp
  then show ?thesis using s1 by (rule that(8))
next
  case LoadingTimeout
  show ?thesis
  proof (cases "loadingTimers s")
    case Nil
    with assms LoadingTimeout show ?thesis by (simp add: handle_event_def)
  next
    case (Cons due rest)
    with assms LoadingTimeout have d: "due \<le> now s" and s1: "s1 = s\<lparr> loading := False, loadingTimers := rest \<rparr>"
      by (simp_all add: handle_event_def split: if_splits)
    show ?thesis by (rule that(9) [OF LoadingTimeout Cons d s1])
  qed
next
  case EndMessageTimeout
  show ?thesis
  proof (cases "endTimer s")
    case None
    with assms EndMessageTimeout show ?thesis by (simp add: handle_event_def)
  next
    case (Some due)
    with assms EndMessageTimeout have d: "due \<le> now s" and s1: "s1 = s\<lparr> showEndMessage := False, endTimer := None \<rparr>"
      by (simp_all add: handle_event_def split: if_splits)
    show ?thesis by (rule that(10) [OF EndMessageTimeout Some d s1])
  qed
qed

lemma step_cases:
  assumes "step t e s = Some s'"
  obtains s1 where "now s \<le> t" "handle_event e (s\<lparr> now := t \<rparr>) = Some s1" "s' = settle (s\<lparr> now := t \<rparr>) s1"
  using assms by (auto simp: step_def Let_def split: if_splits option.splits)

section \<open>The invariants hold in every reachable state\<close>

lemma fetch_inv_settle: "fetch_inv (settle prev cur) = fetch_inv cur"
  by (simp add: fetch_inv_def)

lemma fetch_inv_handle:
  assumes "fetch_inv s" "handle_event e (s\<lparr> now := t \<rparr>) = Some s1"
  shows "fetch_inv s1"
  using assms(2,1) by (cases rule: handle_event_cases) (auto simp: fetch_inv_def)

lemma fetch_inv_step: "fetch_inv s \<Longrightarrow> step t e s = Some s' \<Longrightarrow> fetch_inv s'"
  by (erule step_cases) (simp add: fetch_inv_settle fetch_inv_handle)

lemma page_inv_settle: "page_inv (settle prev cur) = page_inv (afterPage prev cur)"
  by (simp add: page_inv_def settle_page_fields)

lemma page_inv_pageEffect: "loads s \<or> page_inv s \<Longrightarrow> page_inv (pageEffect s)"
  by (auto simp: page_inv_def pageEffect_changes loads_def)

lemma page_inv_step:
  assumes "page_inv s" "fetch_inv s" "step t e s = Some s'"
  shows "page_inv s'"
proof -
  from assms(3) obtain s1 where h: "handle_event e (s\<lparr> now := t \<rparr>) = Some s1"
    and s': "s' = settle (s\<lparr> now := t \<rparr>) s1" by (rule step_cases)
  have "page_inv (afterPage (s\<lparr> now := t \<rparr>) s1)"
    using h
  proof (cases rule: handle_event_cases)
    case (loaded outcome data)
    then have "allCompanies s = []" using assms(2) by (simp add: fetch_inv_def)
    then have "page_inv s1 \<or> (loads s1 \<and> pageDeps (s\<lparr> now := t \<rparr>) \<noteq> pageDeps s1)"
      using assms(1) loaded by (cases "data = []") (simp_all add: page_inv_def loads_def pageDeps_def)
    then show ?thesis by (auto simp: afterPage_def page_inv_pageEffect)
  next
    case more
    have "page_inv s1 \<or> (loads s1 \<and> pageDeps (s\<lparr> now := t \<rparr>) \<noteq> pageDeps s1)"
    proof (cases "loads s")
      case True
      then show ?thesis using more by (simp add: loads_def pageDeps_def)
    next
      case False
      then have "page_inv s1" using assms(1) more by (auto simp: page_inv_def loads_def)
      then show ?thesis ..
    qed
    then show ?thesis by (auto simp: afterPage_def page_inv_pageEffect)
  qed (use assms(1) in \<open>simp_all add: afterPage_def pageDeps_def page_inv_def\<close>)
  then show ?thesis by (simp add: s' page_inv_settle)
qed

lemma end_inv_step:
  assumes "page_inv s" "fetch_inv s" "end_inv s" "step t e s = Some s'"
  shows "end_inv s'"
proof -
  from assms(4) obtain s1 where t: "now s \<le> t" and h: "handle_event e (s\<lparr> now := t \<rparr>) = Some s1"
    and s': "s' = settle (s\<lparr> now := t \<rparr>) s1" by (rule step_cases)
  have pend: "fetchPending s \<Longrightarrow> hasMore s"
    using assms(1,2) by (simp add: page_inv_def fetch_inv_def)
  from h show ?thesis
  proof (cases rule: handle_event_cases)
    case (failed outcome message)
    then show ?thesis using assms(3) t pend unfolding s'
      by (auto simp: end_inv_def settle_end_fields settle_page_fields afterPage_def pageDeps_def endDeps_def)
  next
    case (loaded outcome data)
    then show ?thesis using assms(3) t pend unfolding s'
      by (auto simp: end_inv_def settle_end_fields settle_page_fields afterPage_def pageDeps_def endDeps_def
          pageEffect_changes loads_def)
  next
    case more
    then show ?thesis using assms(3) t unfolding s'
      by (auto simp: end_inv_def settle_end_fields settle_page_fields afterPage_def pageDeps_def endDeps_def
          pageEffect_changes loads_def)
  next
    case nomore
    then show ?thesis using assms(3) t unfolding s'
      by (auto simp: end_inv_def settle_end_fields settle_page_fields afterPage_def pageDeps_def endDeps_def split: if_splits)
  next
    case (search v)
    then show ?thesis using assms(3) t unfolding s'
      by (auto simp: end_inv_def settle_end_fields settle_page_fields afterPage_def pageDeps_def endDeps_def split: if_splits)
  next
    case (location v)
    then show ?thesis using assms(3) t unfolding s'
      by (auto simp: end_inv_def settle_end_fields settle_page_fields afterPage_def pageDeps_def endDeps_def split: if_splits)
  next
    case (company v)
    then show ?thesis using assms(3) t unfolding s'
      by (auto simp: end_inv_def settle_end_fields settle_page_fields afterPage_def pageDeps_def endDeps_def split: if_splits)
  next
    case sort
    then show ?thesis using assms(3) t unfolding s'
      by (auto simp: end_inv_def settle_end_fields settle_page_fields afterPage_def pageDeps_def endDeps_def split: if_splits)
  next
    case (loading_timeout due rest)
    then show ?thesis using assms(3) t unfolding s'
      by (auto simp: end_inv_def settle_end_fields settle_page_fields afterPage_def pageDeps_def endDeps_def split: if_splits)
  next
    case (end_timeout due)
    then show ?thesis using assms(3) t unfolding s'
      by (auto simp: end_inv_def settle_end_fields settle_page_fields afterPage_def pageDeps_def endDeps_def split: if_splits)
  qed
qed

lemma loading_inv_step:
  assumes "loading_inv s" "step t e s = Some s'"
  shows "loading_inv s'"
proof -
  from assms(2) obtain s1 where h: "handle_event e (s\<lparr> now := t \<rparr>) = Some s1"
    and s': "s' = settle (s\<lparr> now := t \<rparr>) s1" by (rule step_cases)
  from h show ?thesis
    using assms(1) unfolding s'
    by (cases rule: handle_event_cases) (auto simp: loading_inv_def settle_simps split: if_splits)
qed

lemma loading_inv_mounted: "loading_inv mounted"
  by (simp add: mounted_def initial_def fetchData_begin_def settle_eq afterPage_def
      endMessageEffect_def pageDeps_def endDeps_def pageEffect_def loading_inv_def)

lemma reachable_inv: "reachable s \<Longrightarrow> page_inv s \<and> fetch_inv s \<and> end_inv s"
proof (induction rule: reachable.induct)
  case reachable_mounted
  show ?case
    by (simp add: mounted_def initial_def fetchData_begin_def settle_eq afterPage_def
        endMessageEffect_def pageDeps_def endDeps_def pageEffect_def page_inv_def fetch_inv_def end_inv_def)
next
  case (reachable_step s t e s')
  then show ?case using page_inv_step fetch_inv_step end_inv_step by blast
qed

lemma reachable_loading_inv: "reachable s \<Longrightarrow> loading_inv s"
  by (induction rule: reachable.induct) (auto intro: loading_inv_mounted loading_inv_step)

lemma filter_inv_step:
  assumes "filter_inv s" "fetch_inv s" "step t e s = Some s'"
  shows "filter_inv s'"
proof -
  from assms(3) obtain s1 where h: "handle_event e (s\<lparr> now := t \<rparr>) = Some s1"
    and s': "s' = settle (s\<lparr> now := t \<rparr>) s1" by (rule step_cases)
  have empty: "fetchPending s \<Longrightarrow> locationFilter s = [] \<and> companyFilter s = []"
    using assms(1,2)
    by (simp add: filter_inv_def fetch_inv_def dropdownItems_def locations_def companyNames_def new_Set_def)
  from h show ?thesis
    using assms(1) empty unfolding s'
    by (cases rule: handle_event_cases) (simp_all add: filter_inv_def dropdownItems_def)
qed

lemma filter_inv_mounted: "filter_inv mounted"
  by (simp add: mounted_def initial_def fetchData_begin_def settle_eq afterPage_def
      endMessageEffect_def pageDeps_def endDeps_def pageEffect_def filter_inv_def dropdownItems_def)

lemma reachable_filter_inv: "reachable s \<Longrightarrow> filter_inv s"
proof (induction rule: reachable.induct)
  case reachable_mounted
  show ?case by (rule filter_inv_mounted)
next
  case (reachable_step s t e s')
  then show ?case using filter_inv_step reachable_inv by blast
qed

lemma reachable_run: "reachable s \<Longrightarrow> run tr s = Some s' \<Longrightarrow> reachable s'"
proof (induction tr arbitrary: s)
  case Nil
  then show ?case by simp
next
  case (Cons te tr)
  obtain t e where te: "te = (t, e)" by (cases te)
  with Cons.prems(2) obtain s1 where s1: "step t e s = Some s1" and r: "run tr s1 = Some s'"
    by (auto split: option.splits)
  from Cons.prems(1) s1 have "reachable s1" by (rule reachable_step)
  then show ?case using r by (rule Cons.IH)
qed

section \<open>What a step changes\<close>

lemma step_now: "step t e s = Some s' \<Longrightarrow> now s \<le> t \<and> now s' = t"
  by (erule step_cases, erule handle_event_cases) simp_all

lemma step_allCompanies:
  assumes "step t e s = Some s'" "allCompanies s' \<noteq> allCompanies s"
  shows "e \<in> range FetchSettled \<and> fetchPending s"
  using assms by (elim step_cases, erule_tac handle_event_cases) auto

lemma step_fetchPending:
  assumes "step t e s = Some s'" "\<not> fetchPending s"
  shows "\<not> fetchPending s' \<and> e \<notin> range FetchSettled"
  using assms by (elim step_cases, erule_tac handle_event_cases) auto

lemma step_error:
  assumes "step t e s = Some s'" "error s' \<noteq> error s"
  shows "e \<in> range FetchSettled \<and> fetchPending s"
  using assms by (elim step_cases, erule_tac handle_event_cases) auto

lemma step_other:
  assumes "step t e s = Some s'" "e \<notin> range FetchSettled"
  shows "allCompanies s' = allCompanies s \<and> fetchPending s' = fetchPending s \<and> error s' = error s
    \<and> fetches s' = fetches s"
  using assms by (elim step_cases, erule_tac handle_event_cases) auto

lemma step_Intersect:
  assumes "step t (Intersect seen) s = Some s'"
  shows "allCompanies s' = allCompanies s \<and> page s' = (if seen then page s + 1 else page s)"
  using assms by (elim step_cases, erule_tac handle_event_cases) auto

lemma step_FetchSettled:
  assumes "step t (FetchSettled outcome) s = Some s'"
  shows "fetchPending s \<and> \<not> fetchPending s' \<and> fetches s' = fetches s
    \<and> (case failure_message outcome of
          Some message \<Rightarrow>
            error s' = Some (if message \<noteq> [] then message else utf16 ''Something went wrong'')
            \<and> allCompanies s' = allCompanies s
        | None \<Rightarrow> error s' = error s
            \<and> (\<exists>res. outcome = FetchResolves res \<and> json res = JsonArray (allCompanies s')))"
proof -
  from assms obtain s1 where h: "handle_event (FetchSettled outcome) (s\<lparr> now := t \<rparr>) = Some s1"
    and s': "s' = settle (s\<lparr> now := t \<rparr>) s1" by (rule step_cases)
  from h have p: "fetchPending s" and s1: "s1 = fetchData_settle outcome (s\<lparr> now := t \<rparr>)"
    by (simp_all add: handle_event_def split: if_splits)
  show ?thesis
    by (cases outcome "s\<lparr> now := t \<rparr>" rule: fetchData_settle_cases) (simp_all add: s' s1 p)
qed

lemma LoadingTimeout_enabled:
  assumes "loadingTimers s = due # rest" "due \<le> t" "now s \<le> t"
  shows "\<exists>s'. step t LoadingTimeout s = Some s' \<and> \<not> loading s' \<and> hasMore s' = hasMore s"
  using assms by (simp add: step_def handle_event_def Let_def settle_simps)

lemma EndMessageTimeout_enabled:
  assumes "endTimer s = Some due" "due \<le> t" "now s \<le> t"
  shows "\<exists>s'. step t EndMessageTimeout s = Some s'"
  using assms by (simp add: step_def handle_event_def Let_def)

lemma placeholder_enabled:
  assumes "now s \<le> t"
  shows "\<exists>s'. step t (SelectLocation 0) s = Some s' \<and> locationFilter s' = []"
    and "\<exists>s'. step t (SelectCompany 0) s = Some s' \<and> companyFilter s' = []"
  using assms by (simp_all add: step_def handle_event_def Let_def dropdownItems_def)

section \<open>The end-of-list message, step by step\<close>

lemma end_enter:
  assumes "page_inv s" "fetch_inv s" "end_inv s" "step t e s = Some s'"
    and "loading s \<or> hasMore s" "\<not> loading s'" "\<not> hasMore s'"
  shows "showEndMessage s' \<and> endShown s' = [t] \<and> endTimer s' = Some (t + 3000)"
proof -
  from assms(4) obtain s1 where h: "handle_event e (s\<lparr> now := t \<rparr>) = Some s1"
    and s': "s' = settle (s\<lparr> now := t \<rparr>) s1" by (rule step_cases)
  have pend: "fetchPending s \<Longrightarrow> hasMore s"
    using assms(1,2) by (simp add: page_inv_def fetch_inv_def)
  from h show ?thesis
    using assms(3,5,6,7) pend unfolding s'
    by (cases rule: handle_event_cases) (auto simp: end_inv_def settle_simps split: if_splits)
qed

lemma end_stable:
  assumes "page_inv s" "fetch_inv s" "step t e s = Some s'" "\<not> loading s" "\<not> hasMore s"
  shows "\<not> loading s' \<and> \<not> hasMore s' \<and> endShown s' = endShown s"
proof -
  from assms(3) obtain s1 where h: "handle_event e (s\<lparr> now := t \<rparr>) = Some s1"
    and s': "s' = settle (s\<lparr> now := t \<rparr>) s1" by (rule step_cases)
  have pend: "fetchPending s \<Longrightarrow> hasMore s"
    using assms(1,2) by (simp add: page_inv_def fetch_inv_def)
  from h show ?thesis
    using assms(4,5) pend unfolding s'
    by (cases rule: handle_event_cases) (auto simp: settle_simps split: if_splits)
qed

lemma end_timer_fires:
  assumes "end_inv s" "step t EndMessageTimeout s = Some s'"
  shows "showEndMessage s \<and> \<not> showEndMessage s' \<and> endTimer s' = None \<and> hd (endShown s) + 3000 \<le> t"
proof -
  from assms(2) obtain s1 where h: "handle_event EndMessageTimeout (s\<lparr> now := t \<rparr>) = Some s1"
    and s': "s' = settle (s\<lparr> now := t \<rparr>) s1" by (rule step_cases)
  from h show ?thesis
    using assms(1) unfolding s'
    by (cases rule: handle_event_cases) (auto simp: end_inv_def settle_simps split: if_splits)
qed

lemma end_message_stays:
  assumes "page_inv s" "fetch_inv s" "end_inv s" "step t e s = Some s'"
    and "showEndMessage s" "e \<noteq> EndMessageTimeout"
  shows "showEndMessage s' \<and> endTimer s' = endTimer s"
proof -
  from assms(4) obtain s1 where h: "handle_event e (s\<lparr> now := t \<rparr>) = Some s1"
    and s': "s' = settle (s\<lparr> now := t \<rparr>) s1" by (rule step_cases)
  have pend: "fetchPending s \<Longrightarrow> hasMore s"
    using assms(1,2) by (simp add: page_inv_def fetch_inv_def)
  have "\<not> loading s \<and> \<not> hasMore s" using assms(3,5) by (auto simp: end_inv_def split: if_splits)
  with h show ?thesis
    using assms(5,6) pend unfolding s'
    by (cases rule: handle_event_cases) (auto simp: settle_simps split: if_splits)
qed

lemma end_visible:
  assumes "page_inv s" "fetch_inv s" "end_inv s" "showEndMessage s"
  shows "endMessageVisible s \<and> \<not> loading s \<and> \<not> hasMore s \<and> endTimer s = Some (hd (endShown s) + 3000)"
proof -
  have e: "\<not> loading s \<and> \<not> hasMore s" using assms(3,4) by (auto simp: end_inv_def split: if_splits)
  then have "allCompanies s \<noteq> []" using assms(1) by (auto simp: page_inv_def)
  then have "error s = None" using assms(2) by (auto simp: fetch_inv_def)
  with e assms(3,4) show ?thesis by (simp add: endMessageVisible_def errorBanner_def end_inv_def)
qed

section \<open>The displayed prefix\<close>

lemma page_inv_post:
  assumes "page_inv s"
  shows "companies s = take (length (companies s)) (allCompanies s)"
    and "allCompanies s \<noteq> [] \<Longrightarrow> loadPage_post s"
proof -
  have c: "companies s = take (min (page s * pageSize) (length (allCompanies s))) (allCompanies s)"
    using assms by (simp add: page_inv_def)
  have l: "length (companies s) = min (page s * pageSize) (length (allCompanies s))"
    using arg_cong [OF c, of length] by simp
  show p: "companies s = take (length (companies s)) (allCompanies s)"
    using c l by simp
  assume "allCompanies s \<noteq> []"
  then have "hasMore s = (page s * pageSize < length (allCompanies s))"
    using assms by (simp add: page_inv_def)
  also have "\<dots> = (length (companies s) < length (allCompanies s))"
    unfolding l by (auto simp: min_def)
  finally show "loadPage_post s" using p by (simp add: loadPage_post_def)
qed

lemma loadPage_post_loadPage:
  assumes "allCompanies s \<noteq> []" "hasMore s"
  shows "loadPage_post (loadPage s)"
  using assms by (simp add: loadPage_def loadPage_post_def Let_def)

lemma page_inv_all_displayed:
  assumes "page_inv s" "page_inv s'" "companies s = allCompanies s" "allCompanies s' = allCompanies s"
    "page s \<le> page s'"
  shows "companies s' = companies s"
proof -
  have c: "companies s = take (min (page s * pageSize) (length (allCompanies s))) (allCompanies s)"
    using assms(1) by (simp add: page_inv_def)
  have "length (companies s) = min (page s * pageSize) (length (allCompanies s))"
    using arg_cong [OF c, of length] by simp
  then have "length (allCompanies s) \<le> page s * pageSize" using assms(3) by simp
  also have "\<dots> \<le> page s' * pageSize" using assms(5) by simp
  finally show ?thesis using assms(2,3,4) by (simp add: page_inv_def)
qed

section \<open>The example session\<close>

lemma run_first_page:
  "run [(500, FetchSettled example_response), (1500, LoadingTimeout)] mounted = Some first_page"
  by code_simp

lemma step_second_page: "step 2000 (Intersect True) first_page = Some second_page"
  by code_simp

lemma step_end_reached: "step 3000 LoadingTimeout second_page = Some end_reached"
  by code_simp

lemma step_end_hidden: "step 6200 EndMessageTimeout end_reached = Some end_hidden"
  by code_simp

lemma step_fetch_failed: "step 400 (FetchSettled not_found_response) mounted = Some fetch_failed"
  by code_simp

lemma reachable_first_page: "reachable first_page"
  using reachable_mounted run_first_page by (rule reachable_run)

lemma reachable_second_page: "reachable second_page"
  using reachable_first_page step_second_page by (rule reachable_step)

lemma reachable_end_reached: "reachable end_reached"
  using reachable_second_page step_end_reached by (rule reachable_step)

lemma reachable_fetch_failed: "reachable fetch_failed"
  using reachable_mounted step_fetch_failed by (rule reachable_step)

section \<open>The claims\<close>

subsection \<open>C1: the text filter\<close>

text \<open>
  Claim C1. For every list of company records and every search string, the text filter
  keeps a record if and only if the lowercased owner or the lowercased company contains
  the lowercased search string as a substring; city and email are not searched.
  The text condition \<open>matchesSearch\<close> is this substring condition; \<open>filteredData\<close> keeps
  the records that pass it and the two categorical conditions, so with both categorical
  filters empty it keeps exactly the records that pass it; and the condition does not
  change when a record's city and email do.
\<close>

theorem text_filter_is_substring_match:
  "(matchesSearch lower (lower g) c
      \<longleftrightarrow> is_substring (lower g) (lower (owner c)) \<or> is_substring (lower g) (lower (company c)))
   \<and> filteredData lower cs g lf cf =
       filter (\<lambda>c. matchesCity lf c \<and> matchesCompany cf c)
         (filter (\<lambda>c. is_substring (lower g) (lower (owner c))
                      \<or> is_substring (lower g) (lower (company c))) cs)
   \<and> filteredData lower cs g [] [] =
       filter (\<lambda>c. is_substring (lower g) (lower (owner c))
                    \<or> is_substring (lower g) (lower (company c))) cs
   \<and> matchesSearch lower (lower g) (c\<lparr> city := x, email := y \<rparr>) = matchesSearch lower (lower g) c"
  by (auto simp: matchesSearch_def filteredData_def matchesCity_def matchesCompany_def
      str_includes_iff Let_def intro: filter_cong)

theorem text_filter_is_substring_match_witness:
  "matchesSearch toLowerCase_ascii (toLowerCase_ascii (utf16 ''AC'')) (example_row ''Cy'' ''ACME Labs'' ''Rome'')
   \<and> (is_substring (toLowerCase_ascii (utf16 ''AC'')) (toLowerCase_ascii (owner (example_row ''Cy'' ''ACME Labs'' ''Rome'')))
      \<or> is_substring (toLowerCase_ascii (utf16 ''AC'')) (toLowerCase_ascii (company (example_row ''Cy'' ''ACME Labs'' ''Rome''))))
   \<and> filteredData toLowerCase_ascii example_rows (utf16 ''AC'') [] []
       = [example_row ''Ann'' ''Acme'' ''Rome'', example_row ''Cy'' ''ACME Labs'' ''Rome'']
   \<and> filteredData toLowerCase_ascii example_rows (utf16 ''rome'') [] [] = []"
proof -
  have m: "matchesSearch toLowerCase_ascii (toLowerCase_ascii (utf16 ''AC'')) (example_row ''Cy'' ''ACME Labs'' ''Rome'')"
    by code_simp
  have f: "filteredData toLowerCase_ascii example_rows (utf16 ''AC'') [] []
       = [example_row ''Ann'' ''Acme'' ''Rome'', example_row ''Cy'' ''ACME Labs'' ''Rome'']"
    by code_simp
  have g: "filteredData toLowerCase_ascii example_rows (utf16 ''rome'') [] [] = []"
    by code_simp
  from m text_filter_is_substring_match
    [of toLowerCase_ascii "utf16 ''AC''" "example_row ''Cy'' ''ACME Labs'' ''Rome''"]
  have "is_substring (toLowerCase_ascii (utf16 ''AC'')) (toLowerCase_ascii (owner (example_row ''Cy'' ''ACME Labs'' ''Rome'')))
      \<or> is_substring (toLowerCase_ascii (utf16 ''AC'')) (toLowerCase_ascii (company (example_row ''Cy'' ''ACME Labs'' ''Rome'')))"
    by blast
  with m f g show ?thesis by blast
qed

subsection \<open>C2: the city and company filters\<close>

text \<open>
  Claim C2. A non-empty city filter keeps a record only if its city equals the filter
  value exactly, a non-empty company filter only if its company equals the filter value
  exactly; an empty filter value matches every record; the search, city and company
  conditions are combined as a conjunction. Equality is equality of code-unit sequences,
  so it is case-sensitive: in the example \<open>rome\<close> does not match \<open>Rome\<close>.
\<close>

theorem categorical_filters_exact_match:
  "filteredData lower cs g lf cf =
     filter (\<lambda>c. matchesSearch lower (lower g) c
                  \<and> (lf = [] \<or> city c = lf) \<and> (cf = [] \<or> company c = cf)) cs
   \<and> (c \<in> set (filteredData lower cs g lf cf) \<longleftrightarrow>
        c \<in> set cs \<and> matchesSearch lower (lower g) c
        \<and> (lf = [] \<or> city c = lf) \<and> (cf = [] \<or> company c = cf))"
  by (auto simp: filteredData_def matchesCity_def matchesCompany_def Let_def intro: filter_cong)

theorem categorical_filters_exact_match_witness:
  "filteredData toLowerCase_ascii example_rows [] (utf16 ''Rome'') (utf16 ''Acme'')
     = [example_row ''Ann'' ''Acme'' ''Rome'']
   \<and> example_row ''Ann'' ''Acme'' ''Rome'' \<in> set example_rows
   \<and> city (example_row ''Ann'' ''Acme'' ''Rome'') = utf16 ''Rome''
   \<and> company (example_row ''Ann'' ''Acme'' ''Rome'') = utf16 ''Acme''
   \<and> filteredData toLowerCase_ascii example_rows [] (utf16 ''rome'') [] = []
   \<and> filteredData toLowerCase_ascii example_rows [] [] (utf16 ''ACME'') = []"
proof -
  have f: "filteredData toLowerCase_ascii example_rows [] (utf16 ''Rome'') (utf16 ''Acme'')
     = [example_row ''Ann'' ''Acme'' ''Rome'']"
    by code_simp
  then have "example_row ''Ann'' ''Acme'' ''Rome''
      \<in> set (filteredData toLowerCase_ascii example_rows [] (utf16 ''Rome'') (utf16 ''Acme''))"
    by simp
  with categorical_filters_exact_match
    [of toLowerCase_ascii example_rows "[]" "utf16 ''Rome''" "utf16 ''Acme''" "example_row ''Ann'' ''Acme'' ''Rome''"]
  have "example_row ''Ann'' ''Acme'' ''Rome'' \<in> set example_rows
      \<and> (utf16 ''Rome'' = [] \<or> city (example_row ''Ann'' ''Acme'' ''Rome'') = utf16 ''Rome'')
      \<and> (utf16 ''Acme'' = [] \<or> company (example_row ''Ann'' ''Acme'' ''Rome'') = utf16 ''Acme'')"
    by blast
  moreover have "utf16 ''Rome'' \<noteq> []" "utf16 ''Acme'' \<noteq> []" by (simp_all add: utf16_def)
  moreover have "filteredData toLowerCase_ascii example_rows [] (utf16 ''rome'') [] = []" by code_simp
  moreover have "filteredData toLowerCase_ascii example_rows [] [] (utf16 ''ACME'') = []" by code_simp
  ultimately show ?thesis using f by blast
qed

subsection \<open>C3: pagination\<close>

text \<open>
  Claim C3. With page size 10, when the page counter is \<open>p\<close> the displayed list is the
  prefix of the dataset of length \<open>min (10 * p) N\<close>, and each page increment triggered by
  the observer reveals the next 10 records, or the smaller rest. When the observer's
  callback saw \<open>hasMore\<close> false, the page counter and the displayed list stay as they are.
\<close>

theorem pagination_fixed_increments:
  assumes "reachable s"
  shows "pageSize = 10
    \<and> companies s = take (min (10 * page s) (length (allCompanies s))) (allCompanies s)
    \<and> (\<forall>t s'. step t (Intersect True) s = Some s' \<longrightarrow>
          page s' = page s + 1
          \<and> allCompanies s' = allCompanies s
          \<and> companies s' = companies s @ take 10 (drop (length (companies s)) (allCompanies s)))
    \<and> (\<forall>t s'. step t (Intersect False) s = Some s' \<longrightarrow>
          page s' = page s \<and> allCompanies s' = allCompanies s \<and> companies s' = companies s)"
proof -
  have p: "companies s = take (min (page s * 10) (length (allCompanies s))) (allCompanies s)"
    using reachable_inv [OF assms] by (simp add: page_inv_def pageSize_def)
  have next_page: "companies s' = take (min (page s' * 10) (length (allCompanies s'))) (allCompanies s')"
    if "step t e s = Some s'" for t e s'
  proof -
    have "reachable s'" using assms that by (rule reachable_step)
    then show ?thesis using reachable_inv by (simp add: page_inv_def pageSize_def)
  qed
  have "page s' = page s + 1 \<and> allCompanies s' = allCompanies s
      \<and> companies s' = companies s @ take 10 (drop (length (companies s)) (allCompanies s))"
    if st: "step t (Intersect True) s = Some s'" for t s'
  proof -
    from st have f: "allCompanies s' = allCompanies s" "page s' = page s + 1"
      using step_Intersect [OF st] by simp_all
    have "companies s' = take (min (page s * 10 + 10) (length (allCompanies s))) (allCompanies s)"
      using next_page [OF st] by (simp add: f add.commute)
    also have "\<dots> = take (min (page s * 10) (length (allCompanies s))) (allCompanies s)
        @ take 10 (drop (min (page s * 10) (length (allCompanies s))) (allCompanies s))"
      by (rule take_next_page)
    finally have c: "companies s' = take (min (page s * 10) (length (allCompanies s))) (allCompanies s)
        @ take 10 (drop (min (page s * 10) (length (allCompanies s))) (allCompanies s))" .
    have "length (companies s) = min (page s * 10) (length (allCompanies s))"
      using arg_cong [OF p, of length] by simp
    with c p f show ?thesis by simp
  qed
  then have inc: "\<forall>t s'. step t (Intersect True) s = Some s' \<longrightarrow>
          page s' = page s + 1
          \<and> allCompanies s' = allCompanies s
          \<and> companies s' = companies s @ take 10 (drop (length (companies s)) (allCompanies s))"
    by blast
  have "page s' = page s \<and> allCompanies s' = allCompanies s \<and> companies s' = companies s"
    if st: "step t (Intersect False) s = Some s'" for t s'
  proof -
    from st have f: "allCompanies s' = allCompanies s" "page s' = page s"
      using step_Intersect [OF st] by simp_all
    with next_page [OF st] p show ?thesis by simp
  qed
  then have idle: "\<forall>t s'. step t (Intersect False) s = Some s' \<longrightarrow>
          page s' = page s \<and> allCompanies s' = allCompanies s \<and> companies s' = companies s"
    by blast
  have size: "pageSize = 10" by (simp add: pageSize_def)
  have "companies s = take (min (10 * page s) (length (allCompanies s))) (allCompanies s)"
    using p by (simp add: mult.commute)
  with size inc idle show ?thesis by blast
qed

theorem pagination_fixed_increments_witness:
  "reachable first_page \<and> step 2000 (Intersect True) first_page = Some second_page
   \<and> companies first_page = take 10 example_dataset
   \<and> page second_page = page first_page + 1
   \<and> companies second_page
       = companies first_page @ take 10 (drop (length (companies first_page)) (allCompanies first_page))
   \<and> length (companies first_page) = 10 \<and> length (companies second_page) = 12"
proof -
  have c: "companies first_page = take 10 example_dataset" by (simp add: first_page_def)
  have l: "length (companies first_page) = 10" "length (companies second_page) = 12" by code_simp+
  from pagination_fixed_increments [OF reachable_first_page] step_second_page
  have "page second_page = page first_page + 1
   \<and> companies second_page
       = companies first_page @ take 10 (drop (length (companies first_page)) (allCompanies first_page))"
    by blast
  with reachable_first_page step_second_page c l show ?thesis by blast
qed

subsection \<open>C4: which loads fail\<close>

text \<open>
  Claim C4 says that the load takes the error path (an error is set and no data is
  stored) if and only if the status is not a success, the content type does not include
  \<open>application/json\<close>, or a network error is thrown. It fails on a response with a success
  status and the JSON content type whose body is not JSON: \<open>res.json()\<close> throws inside
  the same \<open>try\<close>, and the \<open>catch\<close> block sets the error.
\<close>

theorem fetch_failure_without_claimed_cause:
  "\<not> (error (fetchData_settle malformed_response (fetchData_begin initial)) \<noteq> None
        \<and> allCompanies (fetchData_settle malformed_response (fetchData_begin initial)) = []
      \<longleftrightarrow> claimed_fetch_failure malformed_response)"
  by code_simp

text \<open>
  Claim C4, amended. The load takes the error path if and only if the status is not a
  success, the content type does not include \<open>application/json\<close>, a network error is
  thrown, or reading the body as JSON throws; otherwise no error is set and the parsed
  array is stored as the dataset. Either way \<open>loading\<close> is cleared.
\<close>

theorem fetch_failure_iff:
  "(if claimed_fetch_failure outcome \<or> json_throws outcome
    then error (fetchData_settle outcome (fetchData_begin s)) \<noteq> None
       \<and> allCompanies (fetchData_settle outcome (fetchData_begin s)) = allCompanies s
    else error (fetchData_settle outcome (fetchData_begin s)) = None
       \<and> (\<exists>res. outcome = FetchResolves res
             \<and> json res = JsonArray (allCompanies (fetchData_settle outcome (fetchData_begin s)))))
   \<and> \<not> loading (fetchData_settle outcome (fetchData_begin s))"
  by (auto simp: claimed_fetch_failure_def json_throws_def fetchData_settle_def fetchData_catch_def
      fetchData_finally_def fetchData_begin_def split: fetch_outcome.splits json_body.splits)

theorem fetch_failure_iff_witness:
  "claimed_fetch_failure not_found_response
   \<and> error (fetchData_settle not_found_response (fetchData_begin initial)) \<noteq> None
   \<and> allCompanies (fetchData_settle not_found_response (fetchData_begin initial)) = allCompanies initial
   \<and> json_throws malformed_response
   \<and> error (fetchData_settle malformed_response (fetchData_begin initial)) \<noteq> None
   \<and> \<not> claimed_fetch_failure example_response \<and> \<not> json_throws example_response
   \<and> error (fetchData_settle example_response (fetchData_begin initial)) = None
   \<and> allCompanies (fetchData_settle example_response (fetchData_begin initial)) = example_dataset"
proof -
  have a: "claimed_fetch_failure not_found_response" by code_simp
  have b: "json_throws malformed_response" by code_simp
  have c: "\<not> claimed_fetch_failure example_response" "\<not> json_throws example_response" by code_simp+
  have d: "allCompanies (fetchData_settle example_response (fetchData_begin initial)) = example_dataset"
    by code_simp
  from a fetch_failure_iff [of not_found_response initial]
  have 1: "error (fetchData_settle not_found_response (fetchData_begin initial)) \<noteq> None
   \<and> allCompanies (fetchData_settle not_found_response (fetchData_begin initial)) = allCompanies initial"
    by simp
  from b fetch_failure_iff [of malformed_response initial]
  have 2: "error (fetchData_settle malformed_response (fetchData_begin initial)) \<noteq> None" by simp
  from c fetch_failure_iff [of example_response initial]
  have 3: "error (fetchData_settle example_response (fetchData_begin initial)) = None" by simp
  from a b c d 1 2 3 show ?thesis by blast
qed

subsection \<open>C5: a failed load\<close>

text \<open>
  Claim C5. On a fetch failure the error state is set to the failure message (the caught
  error's message, or \<open>Something went wrong\<close> when that is empty) and the banner shows it;
  the dataset stays empty; the fetch is not retried: \<open>fetchData\<close> has been called once in
  every reachable state, and once an error is set no event settles a fetch, changes the
  error or stores a dataset.
\<close>

theorem fetch_failure_surfaced_once:
  assumes "reachable s"
  shows "fetches s = 1
    \<and> (\<forall>t outcome s' message.
          step t (FetchSettled outcome) s = Some s' \<and> failure_message outcome = Some message \<longrightarrow>
            error s' = Some (if message \<noteq> [] then message else utf16 ''Something went wrong'')
            \<and> errorBanner s' = error s'
            \<and> allCompanies s' = allCompanies s \<and> allCompanies s' = []
            \<and> \<not> fetchPending s' \<and> fetches s' = 1)
    \<and> (error s \<noteq> None \<longrightarrow>
          errorBanner s = error s \<and> allCompanies s = [] \<and> \<not> fetchPending s
          \<and> (\<forall>t e s'. step t e s = Some s' \<longrightarrow>
                error s' = error s \<and> allCompanies s' = [] \<and> e \<notin> range FetchSettled))"
proof -
  have inv: "fetch_inv s" using reachable_inv [OF assms] by simp
  then have one: "fetches s = 1" by (simp add: fetch_inv_def)
  have banner: "errorBanner x = error x" if "fetch_inv x" for x
    using that by (cases "error x") (auto simp: errorBanner_def fetch_inv_def)
  have settled: "error s' = Some (if message \<noteq> [] then message else utf16 ''Something went wrong'')
            \<and> errorBanner s' = error s'
            \<and> allCompanies s' = allCompanies s \<and> allCompanies s' = []
            \<and> \<not> fetchPending s' \<and> fetches s' = 1"
    if st: "step t (FetchSettled outcome) s = Some s'" and m: "failure_message outcome = Some message"
    for t outcome s' message
  proof -
    have "reachable s'" using assms st by (rule reachable_step)
    then have inv': "fetch_inv s'" using reachable_inv by simp
    from step_FetchSettled [OF st] m
    have "error s' = Some (if message \<noteq> [] then message else utf16 ''Something went wrong'')"
      "allCompanies s' = allCompanies s" "\<not> fetchPending s'"
      by simp_all
    moreover from this inv' have "allCompanies s' = []" "fetches s' = 1"
      by (simp_all add: fetch_inv_def)
    ultimately show ?thesis using banner [OF inv'] by simp
  qed
  have after: "errorBanner s = error s \<and> allCompanies s = [] \<and> \<not> fetchPending s
          \<and> (\<forall>t e s'. step t e s = Some s' \<longrightarrow>
                error s' = error s \<and> allCompanies s' = [] \<and> e \<notin> range FetchSettled)"
    if err: "error s \<noteq> None"
  proof -
    from inv err have a: "allCompanies s = []" and p: "\<not> fetchPending s" by (simp_all add: fetch_inv_def)
    have "error s' = error s \<and> allCompanies s' = [] \<and> e \<notin> range FetchSettled"
      if st: "step t e s = Some s'" for t e s'
      using step_fetchPending [OF st p] step_error [OF st] step_allCompanies [OF st] p a by metis
    then show ?thesis using a p banner [OF inv] by blast
  qed
  from one settled after show ?thesis by blast
qed

theorem fetch_failure_surfaced_once_witness:
  "reachable mounted \<and> step 400 (FetchSettled not_found_response) mounted = Some fetch_failed
   \<and> failure_message not_found_response = Some (utf16 ''Failed to fetch company data'')
   \<and> errorBanner fetch_failed = Some (utf16 ''Failed to fetch company data'')
   \<and> allCompanies fetch_failed = [] \<and> fetches fetch_failed = 1
   \<and> step 500 (FetchSettled example_response) fetch_failed = None"
proof -
  have m: "failure_message not_found_response = Some (utf16 ''Failed to fetch company data'')"
    by code_simp
  have n: "utf16 ''Failed to fetch company data'' \<noteq> []" by (simp add: utf16_def)
  have r: "step 500 (FetchSettled example_response) fetch_failed = None" by code_simp
  from fetch_failure_surfaced_once [OF reachable_mounted] step_fetch_failed m
  have "error fetch_failed = Some (if utf16 ''Failed to fetch company data'' \<noteq> []
            then utf16 ''Failed to fetch company data'' else utf16 ''Something went wrong'')
        \<and> errorBanner fetch_failed = error fetch_failed
        \<and> allCompanies fetch_failed = [] \<and> fetches fetch_failed = 1"
    by blast
  with n have "errorBanner fetch_failed = Some (utf16 ''Failed to fetch company data'')
        \<and> allCompanies fetch_failed = [] \<and> fetches fetch_failed = 1"
    by simp
  with reachable_mounted step_fetch_failed m r show ?thesis by blast
qed

subsection \<open>C6: the end-of-list message\<close>

text \<open>
  Claim C6. The end-of-list message appears once and disappears after a fixed delay.
  In every reachable state \<open>setShowEndMessage(true)\<close> has been called once if loading has
  ended with no more records, and never otherwise. While the flag is set the message is
  rendered and its timer is due 3000 ms after the call; the timer can fire from then on.
  When the last page is loading, its loading timer is pending, and the step in which it
  fires shows the message. For every step: a step that ends loading with no more records
  shows the message and starts the 3000 ms timer; once there, \<open>loading\<close> and \<open>hasMore\<close>
  stay false and the message is not shown a second time; the message stays on under every
  event but its timer; and the timer, which fires no earlier than 3000 ms after the message
  was shown, hides it.
\<close>

theorem end_message_once_then_hidden:
  assumes "reachable s"
  shows "length (endShown s) = (if \<not> loading s \<and> \<not> hasMore s then 1 else 0)
    \<and> (showEndMessage s \<longrightarrow>
          endMessageVisible s \<and> \<not> loading s \<and> \<not> hasMore s
          \<and> endTimer s = Some (hd (endShown s) + 3000)
          \<and> (\<forall>t. hd (endShown s) + 3000 \<le> t \<and> now s \<le> t \<longrightarrow>
                (\<exists>s'. step t EndMessageTimeout s = Some s')))
    \<and> (loading s \<and> \<not> hasMore s \<longrightarrow>
          loadingTimers s \<noteq> []
          \<and> (\<forall>t. hd (loadingTimers s) \<le> t \<and> now s \<le> t \<longrightarrow>
                (\<exists>s'. step t LoadingTimeout s = Some s' \<and> endMessageVisible s')))
    \<and> (\<forall>t e s'. step t e s = Some s' \<longrightarrow>
          ((loading s \<or> hasMore s) \<and> \<not> loading s' \<and> \<not> hasMore s' \<longrightarrow>
             endMessageVisible s' \<and> endShown s' = [t] \<and> endTimer s' = Some (t + 3000))
          \<and> (\<not> loading s \<and> \<not> hasMore s \<longrightarrow>
               \<not> loading s' \<and> \<not> hasMore s' \<and> endShown s' = endShown s)
          \<and> (showEndMessage s \<and> e \<noteq> EndMessageTimeout \<longrightarrow>
               showEndMessage s' \<and> endTimer s' = endTimer s)
          \<and> (e = EndMessageTimeout \<longrightarrow>
               showEndMessage s \<and> \<not> showEndMessage s' \<and> \<not> endMessageVisible s'
               \<and> hd (endShown s) + 3000 \<le> t))"
proof -
  have inv: "page_inv s" "fetch_inv s" "end_inv s" using reachable_inv [OF assms] by simp_all
  have a: "length (endShown s) = (if \<not> loading s \<and> \<not> hasMore s then 1 else 0)"
    using inv(3) by (simp add: end_inv_def split: if_splits)
  have entering: "endMessageVisible s' \<and> endShown s' = [t] \<and> endTimer s' = Some (t + 3000)"
    if st: "step t e s = Some s'" and "loading s \<or> hasMore s" "\<not> loading s'" "\<not> hasMore s'"
    for t e s'
  proof -
    have "reachable s'" using assms st by (rule reachable_step)
    then have "page_inv s'" "fetch_inv s'" "end_inv s'" using reachable_inv by simp_all
    then show ?thesis using end_enter [OF inv that] end_visible [of s'] by blast
  qed
  have b: "endMessageVisible s \<and> \<not> loading s \<and> \<not> hasMore s
          \<and> endTimer s = Some (hd (endShown s) + 3000)
          \<and> (\<forall>t. hd (endShown s) + 3000 \<le> t \<and> now s \<le> t \<longrightarrow>
                (\<exists>s'. step t EndMessageTimeout s = Some s'))"
    if "showEndMessage s"
    using end_visible [OF inv that] EndMessageTimeout_enabled [of s] by blast
  have c: "loadingTimers s \<noteq> []
          \<and> (\<forall>t. hd (loadingTimers s) \<le> t \<and> now s \<le> t \<longrightarrow>
                (\<exists>s'. step t LoadingTimeout s = Some s' \<and> endMessageVisible s'))"
    if l: "loading s" and m: "\<not> hasMore s"
  proof -
    have "\<not> fetchPending s" using inv(1,2) m by (auto simp: page_inv_def fetch_inv_def)
    then obtain due rest where timers: "loadingTimers s = due # rest"
      using reachable_loading_inv [OF assms] l by (cases "loadingTimers s") (simp_all add: loading_inv_def)
    have "\<exists>s'. step t LoadingTimeout s = Some s' \<and> endMessageVisible s'"
      if "hd (loadingTimers s) \<le> t" "now s \<le> t" for t
    proof -
      from that timers obtain s' where st: "step t LoadingTimeout s = Some s'"
        and "\<not> loading s'" "hasMore s' = hasMore s"
        using LoadingTimeout_enabled [OF timers, of t] by auto
      then show ?thesis using entering [OF st] l m by blast
    qed
    with timers show ?thesis by simp
  qed
  have d: "((loading s \<or> hasMore s) \<and> \<not> loading s' \<and> \<not> hasMore s' \<longrightarrow>
             endMessageVisible s' \<and> endShown s' = [t] \<and> endTimer s' = Some (t + 3000))
          \<and> (\<not> loading s \<and> \<not> hasMore s \<longrightarrow>
               \<not> loading s' \<and> \<not> hasMore s' \<and> endShown s' = endShown s)
          \<and> (showEndMessage s \<and> e \<noteq> EndMessageTimeout \<longrightarrow>
               showEndMessage s' \<and> endTimer s' = endTimer s)
          \<and> (e = EndMessageTimeout \<longrightarrow>
               showEndMessage s \<and> \<not> showEndMessage s' \<and> \<not> endMessageVisible s'
               \<and> hd (endShown s) + 3000 \<le> t)"
    if st: "step t e s = Some s'" for t e s'
  proof -
    have 1: "endMessageVisible s' \<and> endShown s' = [t] \<and> endTimer s' = Some (t + 3000)"
      if "loading s \<or> hasMore s" "\<not> loading s'" "\<not> hasMore s'"
      using entering [OF st that] .
    have 2: "\<not> loading s' \<and> \<not> hasMore s' \<and> endShown s' = endShown s" if "\<not> loading s" "\<not> hasMore s"
      using end_stable [OF inv(1,2) st that] .
    have 3: "showEndMessage s' \<and> endTimer s' = endTimer s" if "showEndMessage s" "e \<noteq> EndMessageTimeout"
      using end_message_stays [OF inv st that] .
    have 4: "showEndMessage s \<and> \<not> showEndMessage s' \<and> \<not> endMessageVisible s'
               \<and> hd (endShown s) + 3000 \<le> t" if "e = EndMessageTimeout"
      using end_timer_fires [OF inv(3) st [unfolded that]] by (simp add: endMessageVisible_def)
    from 1 2 3 4 show ?thesis by blast
  qed
  from a b c d show ?thesis by blast
qed

theorem end_message_once_then_hidden_witness:
  "reachable second_page \<and> step 3000 LoadingTimeout second_page = Some end_reached
   \<and> loading second_page \<and> \<not> loading end_reached \<and> \<not> hasMore end_reached
   \<and> endMessageVisible end_reached \<and> endShown end_reached = [3000] \<and> endTimer end_reached = Some 6000
   \<and> reachable end_reached \<and> step 5999 EndMessageTimeout end_reached = None
   \<and> step 6200 EndMessageTimeout end_reached = Some end_hidden
   \<and> \<not> endMessageVisible end_hidden \<and> endShown end_hidden = [3000]"
proof -
  have n: "loading second_page" "\<not> loading end_reached" "\<not> hasMore end_reached"
    "step 5999 EndMessageTimeout end_reached = None" "endShown end_hidden = [3000]"
    by code_simp+
  from end_message_once_then_hidden [OF reachable_second_page] step_end_reached n(1,2,3)
  have 1: "endMessageVisible end_reached \<and> endShown end_reached = [3000]
      \<and> endTimer end_reached = Some (3000 + 3000)"
    by blast
  from end_message_once_then_hidden [OF reachable_end_reached] step_end_hidden
  have 2: "\<not> endMessageVisible end_hidden" by blast
  from 1 2 n reachable_second_page reachable_end_reached step_end_reached step_end_hidden
  show ?thesis by simp
qed

subsection \<open>C7: the dataset is read once\<close>

text \<open>
  Claim C7. The dataset is read once and then held unchanged: \<open>fetchData\<close> has been called
  exactly once in every reachable state; the only step that changes \<open>allCompanies\<close> is the
  settling of that fetch, which needs the fetch to be pending, finds the dataset empty and
  leaves no fetch pending; every other event (the observer's page increment, search input,
  a dropdown selection, sorting, a timer) leaves \<open>allCompanies\<close> as it is and starts no
  fetch.
\<close>

theorem dataset_read_once_then_unchanged:
  assumes "reachable s" "step t e s = Some s'"
  shows "fetches s' = 1
    \<and> (if e \<in> range FetchSettled
        then fetchPending s \<and> allCompanies s = [] \<and> \<not> fetchPending s'
        else allCompanies s' = allCompanies s \<and> fetchPending s' = fetchPending s)"
proof -
  have "reachable s'" using assms by (rule reachable_step)
  then have one: "fetches s' = 1" using reachable_inv by (simp add: fetch_inv_def)
  show ?thesis
  proof (cases "e \<in> range FetchSettled")
    case True
    then obtain outcome where e: "e = FetchSettled outcome" by blast
    from step_FetchSettled [OF assms(2) [unfolded e]]
    have p: "fetchPending s" "\<not> fetchPending s'" by simp_all
    then have "allCompanies s = []" using reachable_inv [OF assms(1)] by (simp add: fetch_inv_def)
    with p one True show ?thesis by simp
  next
    case False
    with step_other [OF assms(2) False] one show ?thesis by simp
  qed
qed

theorem dataset_read_once_then_unchanged_witness:
  "reachable first_page \<and> step 2000 (Intersect True) first_page = Some second_page
   \<and> Intersect True \<notin> range FetchSettled
   \<and> allCompanies second_page = allCompanies first_page \<and> allCompanies first_page = example_dataset
   \<and> fetches second_page = 1 \<and> \<not> fetchPending second_page"
proof -
  have n: "Intersect True \<notin> range FetchSettled" by blast
  have d: "allCompanies first_page = example_dataset" "\<not> fetchPending first_page"
    by (simp_all add: first_page_def)
  from dataset_read_once_then_unchanged [OF reachable_first_page step_second_page] n
  have "fetches second_page = 1 \<and> allCompanies second_page = allCompanies first_page
      \<and> fetchPending second_page = fetchPending first_page"
    by simp
  with reachable_first_page step_second_page n d show ?thesis by blast
qed

subsection \<open>C8: the displayed list is a prefix\<close>

text \<open>
  Claim C8. After every execution of \<open>loadPage\<close> the displayed list is a prefix of the
  dataset, and \<open>hasMore\<close> holds if and only if that prefix is strictly shorter than the
  dataset; once every record is displayed, further page increments leave the displayed
  list unchanged. The page effect calls \<open>loadPage\<close> only on a non-empty dataset. Stated
  for a call that passes the guard in any state \<open>x\<close>, for every reachable state with a
  non-empty dataset and for \<open>loadPage\<close> called there, and for every step of the observer
  and a call of \<open>loadPage\<close> with a larger page counter once all records are displayed.
\<close>

theorem loadPage_prefix_invariant:
  assumes "reachable s"
  shows "(allCompanies x \<noteq> [] \<and> hasMore x \<longrightarrow> loadPage_post (loadPage x))
    \<and> (allCompanies s \<noteq> [] \<longrightarrow> loadPage_post s \<and> loadPage_post (loadPage s))
    \<and> companies s = take (length (companies s)) (allCompanies s)
    \<and> (companies s = allCompanies s \<longrightarrow>
          (\<forall>seen t s'. step t (Intersect seen) s = Some s' \<longrightarrow> companies s' = companies s)
          \<and> (\<forall>k. companies (loadPage (s\<lparr> page := page s + k \<rparr>)) = companies s))"
proof -
  have inv: "page_inv s" using reachable_inv [OF assms] by simp
  have a: "allCompanies x \<noteq> [] \<and> hasMore x \<longrightarrow> loadPage_post (loadPage x)"
    by (simp add: loadPage_post_loadPage)
  have b: "loadPage_post s \<and> loadPage_post (loadPage s)" if ne: "allCompanies s \<noteq> []"
  proof (cases "hasMore s")
    case True
    with ne show ?thesis using page_inv_post(2) [OF inv] loadPage_post_loadPage by simp
  next
    case False
    then have "loadPage s = s" by (simp add: loadPage_def)
    with ne show ?thesis using page_inv_post(2) [OF inv] by simp
  qed
  have c: "companies s = take (length (companies s)) (allCompanies s)"
    by (rule page_inv_post(1) [OF inv])
  have d: "companies s' = companies s" if full: "companies s = allCompanies s"
    and st: "step t (Intersect seen) s = Some s'" for seen t s'
  proof -
    have "reachable s'" using assms st by (rule reachable_step)
    then have "page_inv s'" using reachable_inv by simp
    with inv show ?thesis using full step_Intersect [OF st] by (intro page_inv_all_displayed) simp_all
  qed
  have e: "companies (loadPage (s\<lparr> page := page s + k \<rparr>)) = companies s" if full: "companies s = allCompanies s" for k
  proof (cases "allCompanies s \<noteq> [] \<and> hasMore s")
    case True
    then have "length (companies s) < length (allCompanies s)"
      using page_inv_post(2) [OF inv] by (simp add: loadPage_post_def)
    with full show ?thesis by simp
  next
    case False
    then show ?thesis by (auto simp: loadPage_def)
  qed
  from a b c d e show ?thesis by blast
qed

theorem loadPage_prefix_invariant_witness:
  "reachable second_page \<and> allCompanies second_page \<noteq> []
   \<and> loadPage_post second_page \<and> \<not> hasMore second_page
   \<and> companies second_page = allCompanies second_page
   \<and> companies (loadPage (second_page\<lparr> page := page second_page + 1 \<rparr>)) = companies second_page
   \<and> hasMore first_page \<and> length (companies first_page) < length (allCompanies first_page)"
proof -
  have n: "allCompanies second_page \<noteq> []" "\<not> hasMore second_page"
    "companies second_page = allCompanies second_page"
    "hasMore first_page" "length (companies first_page) < length (allCompanies first_page)"
    by code_simp+
  from loadPage_prefix_invariant [OF reachable_second_page] n(1,3)
  have "loadPage_post second_page
    \<and> companies (loadPage (second_page\<lparr> page := page second_page + 1 \<rparr>)) = companies second_page"
    by blast
  with reachable_second_page n show ?thesis by blast
qed

subsection \<open>C9: empty filters\<close>

text \<open>
  Claim C9. When the search string and both categorical filters are empty, \<open>filteredData\<close>
  is the displayed list, every record kept in its order. The lowercase function is the
  runtime's; the one fact used of it is that it maps the empty string to itself.
\<close>

theorem empty_filters_identity:
  assumes "lower [] = []"
  shows "filteredData lower cs [] [] [] = cs"
proof -
  have "str_includes s []" for s :: jsstring by (cases s) simp_all
  then show ?thesis
    by (simp add: filteredData_def matchesSearch_def matchesCity_def matchesCompany_def assms)
qed

theorem empty_filters_identity_witness:
  "toLowerCase_ascii [] = [] \<and> filteredData toLowerCase_ascii example_rows [] [] [] = example_rows"
proof -
  have l: "toLowerCase_ascii [] = []" by (simp add: toLowerCase_ascii_def)
  from empty_filters_identity [of toLowerCase_ascii example_rows, OF l] l show ?thesis by blast
qed

subsection \<open>C10: the dropdown options\<close>

text \<open>
  Claim C10. The city options are the distinct city values of the full dataset in the
  order of their first occurrence, and likewise the company options; so every non-empty
  value that can be selected matches at least one record of the full dataset, and in
  every reachable state each of the two filters is empty or the value of a record of the
  full dataset; and the placeholder item, the first of the list, sets the filter to the
  empty string.
\<close>

theorem dropdown_options:
  "locations all = first_occurrences (map city all)
   \<and> companyNames all = first_occurrences (map company all)
   \<and> distinct (locations all) \<and> set (locations all) = city ` set all
   \<and> distinct (companyNames all) \<and> set (companyNames all) = company ` set all
   \<and> (\<forall>v \<in> set (dropdownItems (locations all)). v \<noteq> [] \<longrightarrow> (\<exists>c \<in> set all. matchesCity v c))
   \<and> (\<forall>v \<in> set (dropdownItems (companyNames all)). v \<noteq> [] \<longrightarrow> (\<exists>c \<in> set all. matchesCompany v c))
   \<and> (reachable s \<longrightarrow>
         (locationFilter s = [] \<or> (\<exists>c \<in> set (allCompanies s). city c = locationFilter s))
         \<and> (companyFilter s = [] \<or> (\<exists>c \<in> set (allCompanies s). company c = companyFilter s)))
   \<and> handle_event (SelectLocation 0) s = Some (s\<lparr> locationFilter := [] \<rparr>)
   \<and> handle_event (SelectCompany 0) s = Some (s\<lparr> companyFilter := [] \<rparr>)
   \<and> (now s \<le> t \<longrightarrow>
         (\<exists>s'. step t (SelectLocation 0) s = Some s' \<and> locationFilter s' = [])
         \<and> (\<exists>s'. step t (SelectCompany 0) s = Some s' \<and> companyFilter s' = []))"
proof (intro conjI)
  show "locations all = first_occurrences (map city all)"
    and "companyNames all = first_occurrences (map company all)"
    by (rule locations_first_occurrences)+
  show "distinct (locations all)" and "distinct (companyNames all)"
    by (simp_all add: locations_first_occurrences distinct_first_occurrences)
  show "set (locations all) = city ` set all" and "set (companyNames all) = company ` set all"
    by (rule set_locations)+
  show "\<forall>v \<in> set (dropdownItems (locations all)). v \<noteq> [] \<longrightarrow> (\<exists>c \<in> set all. matchesCity v c)"
    by (auto simp: set_locations dropdownItems_def matchesCity_def)
  show "\<forall>v \<in> set (dropdownItems (companyNames all)). v \<noteq> [] \<longrightarrow> (\<exists>c \<in> set all. matchesCompany v c)"
    by (auto simp: set_locations dropdownItems_def matchesCompany_def)
  show "handle_event (SelectLocation 0) s = Some (s\<lparr> locationFilter := [] \<rparr>)"
    and "handle_event (SelectCompany 0) s = Some (s\<lparr> companyFilter := [] \<rparr>)"
    by (simp_all add: handle_event_def dropdownItems_def)
  show "reachable s \<longrightarrow>
         (locationFilter s = [] \<or> (\<exists>c \<in> set (allCompanies s). city c = locationFilter s))
         \<and> (companyFilter s = [] \<or> (\<exists>c \<in> set (allCompanies s). company c = companyFilter s))"
  proof
    assume "reachable s"
    then have "filter_inv s" by (rule reachable_filter_inv)
    then show "(locationFilter s = [] \<or> (\<exists>c \<in> set (allCompanies s). city c = locationFilter s))
         \<and> (companyFilter s = [] \<or> (\<exists>c \<in> set (allCompanies s). company c = companyFilter s))"
      by (auto simp: filter_inv_def dropdownItems_def set_locations)
  qed
  show "now s \<le> t \<longrightarrow>
         (\<exists>s'. step t (SelectLocation 0) s = Some s' \<and> locationFilter s' = [])
         \<and> (\<exists>s'. step t (SelectCompany 0) s = Some s' \<and> companyFilter s' = [])"
    using placeholder_enabled [of s t] by blast
qed

theorem dropdown_options_witness:
  "locations example_rows = [utf16 ''Rome'', utf16 ''Oslo'']
   \<and> utf16 ''Oslo'' \<in> set (dropdownItems (locations example_rows)) \<and> utf16 ''Oslo'' \<noteq> []
   \<and> (\<exists>c \<in> set example_rows. matchesCity (utf16 ''Oslo'') c)
   \<and> reachable first_page \<and> locationFilter first_page = []
   \<and> now first_page \<le> 1600
   \<and> (\<exists>s'. step 1600 (SelectLocation 0) first_page = Some s' \<and> locationFilter s' = [])"
proof -
  have l: "locations example_rows = [utf16 ''Rome'', utf16 ''Oslo'']" by code_simp
  have m: "utf16 ''Oslo'' \<in> set (dropdownItems (locations example_rows))"
    by (simp add: l dropdownItems_def)
  have n: "utf16 ''Oslo'' \<noteq> []" by (simp add: utf16_def)
  have f: "locationFilter first_page = []" "now first_page \<le> 1600" by code_simp+
  from dropdown_options [of example_rows first_page 1600] m n f(2)
  have "(\<exists>c \<in> set example_rows. matchesCity (utf16 ''Oslo'') c)
      \<and> (\<exists>s'. step 1600 (SelectLocation 0) first_page = Some s' \<and> locationFilter s' = [])"
    by blast
  with l m n f reachable_first_page show ?thesis by blast
qed

end
